theory Spec2Isabelle
  imports Main "HOL-Library.Finite_Map" "HOL-Library.Word"
begin

section \<open>Data model of \<^verbatim>\<open>src/cond.c\<close>\<close>

text \<open>
  Pointers are addresses; a C pointer that may be \<^verbatim>\<open>NULL\<close> is an \<open>addr option\<close>.

  Modelled from the spec: the handle types and \<^verbatim>\<open>ABTI_cond_get_ptr\<close> are declared in headers
  other than \<^verbatim>\<open>abti_pool.h\<close> and \<^verbatim>\<open>abtu.h\<close>. A handle is a pointer in disguise: the null
  handle stands for \<^verbatim>\<open>NULL\<close> and every other handle for the pointer it carries (as
  \<^verbatim>\<open>ABTI_pool_get_ptr\<close> has it for pools), so \<^verbatim>\<open>ABT_COND_NULL\<close> and \<^verbatim>\<open>ABT_MUTEX_NULL\<close>
  are \<open>None\<close>. Mutex handles are compared by identity.
\<close>

type_synonym addr = nat

type_synonym ABT_mutex = "addr option"

type_synonym ABT_cond = "addr option"

abbreviation ABT_MUTEX_NULL :: ABT_mutex where
  "ABT_MUTEX_NULL \<equiv> None"

abbreviation ABT_COND_NULL :: ABT_cond where
  "ABT_COND_NULL \<equiv> None"

text \<open>
  The error codes that \<^verbatim>\<open>cond.c\<close> returns; only their identity matters.
  \<open>ABT_ERR_OTHER\<close> stands for a code handed through from \<^verbatim>\<open>ABT_mutex_create\<close>.

  Modelled from the spec: the macro \<^verbatim>\<open>ABTI_CHECK_NULL_COND_PTR\<close> is defined in a header other
  than the two above; on \<^verbatim>\<open>NULL\<close> it makes the function fail with the code for an invalid
  handle, \<open>ABT_ERR_INV_COND\<close>.
\<close>

datatype abt_errno =
    ABT_SUCCESS
  | ABT_ERR_MEM
  | ABT_ERR_INV_COND
  | ABT_ERR_INV_MUTEX
  | ABT_ERR_COND
  | ABT_ERR_OTHER nat

datatype ABT_unit_type = ABT_UNIT_TYPE_THREAD | ABT_UNIT_TYPE_EXT

datatype ABT_thread_state = READY | RUNNING | BLOCKED | TERMINATED

text \<open>
  \<^verbatim>\<open>ABTI_thread_entry\<close>, with the fields that \<^verbatim>\<open>cond.c\<close> uses: \<open>current\<close> holds either
  a ULT pointer or the address of an external thread's \<^verbatim>\<open>ext_signal\<close> flag, and \<open>type\<close>
  says which. \<open>type\<close> is \<open>None\<close> as long as the field has not been written since
  \<^verbatim>\<open>ABTU_malloc\<close>; a comparison of such a field with \<^verbatim>\<open>ABT_UNIT_TYPE_THREAD\<close> counts as
  false.
\<close>

record ABTI_thread_entry =
  current :: "addr option"
  "next" :: "addr option"
  type :: "ABT_unit_type option"

text \<open>
  \<^verbatim>\<open>ABTI_cond\<close>: \<open>mutex\<close> is the internal guard, \<open>waiter_mutex\<close> the user mutex
  associated with the waiters; \<open>waiters_head\<close> and \<open>waiters_tail\<close> are
  \<^verbatim>\<open>waiters.head\<close> and \<^verbatim>\<open>waiters.tail\<close>. The counter is a natural number: it counts
  queued nodes, one allocation each after the first, and is decremented only when it is not
  zero, so it neither wraps nor underflows.
\<close>

record ABTI_cond =
  mutex :: ABT_mutex
  waiter_mutex :: ABT_mutex
  num_waiters :: nat
  waiters_head :: "addr option"
  waiters_tail :: "addr option"

text \<open>
  The thread-local \<^verbatim>\<open>lp_ABTI_local\<close> (\<open>None\<close> when the runtime has not initialised it
  for the calling OS thread); \<^verbatim>\<open>ABTI_local_get_thread()\<close> reads its \<open>p_thread\<close>.
\<close>

record ABTI_local =
  p_thread :: "addr option"

text \<open>
  What a call does to its collaborators and to the flags of external threads, in program
  order.

  Modelled from the spec: the mutex primitive (\<^verbatim>\<open>ABT_mutex_lock\<close>, \<^verbatim>\<open>ABT_mutex_spinlock\<close>,
  \<^verbatim>\<open>ABT_mutex_unlock\<close>) and the scheduler's \<^verbatim>\<open>ABTI_thread_set_blocked\<close> and
  \<^verbatim>\<open>ABTI_thread_set_ready\<close> are defined in other files. A call of one of them is an event
  of the trace; the two scheduler functions also take the state of the ULT to \<open>BLOCKED\<close> and
  to \<open>READY\<close>. Every call of an operation starts with the guard free, since the calls are
  serialised by it.
\<close>

datatype event =
    MUTEX_SPINLOCK ABT_mutex
  | MUTEX_LOCK ABT_mutex
  | MUTEX_UNLOCK ABT_mutex
  | THREAD_SET_BLOCKED addr
  | THREAD_SET_READY addr
  | EXT_SIGNAL addr

text \<open>
  The memory the condition variables live in: the \<^verbatim>\<open>ABTI_cond\<close> structs and the
  \<^verbatim>\<open>ABTI_thread_entry\<close> nodes that are currently allocated, the state field of every
  ULT, the \<^verbatim>\<open>ext_signal\<close> words on the stacks of external threads, and the trace of
  events so far.
\<close>

record world =
  conds :: "(addr, ABTI_cond) fmap"
  entries :: "(addr, ABTI_thread_entry) fmap"
  thread_state :: "addr \<Rightarrow> ABT_thread_state"
  ext_signal :: "addr \<Rightarrow> int"
  trace :: "event list"

text \<open>
  How a call ends. \<open>Return r w\<close>: it returned \<open>r\<close> in world \<open>w\<close>.
  \<open>Suspend w\<close>: \<^verbatim>\<open>ABT_cond_wait\<close> has queued its caller, released both mutexes and is
  parked (in \<^verbatim>\<open>ABTI_thread_suspend\<close> or spinning on \<^verbatim>\<open>ext_signal\<close>) until another
  thread wakes it. \<open>Abort w\<close>: an \<^verbatim>\<open>assert\<close> failed in world \<open>w\<close>. \<open>Fault\<close>: the
  call dereferenced a null or dangling pointer.
\<close>

datatype 'r outcome = Return 'r world | Suspend world | Abort world | Fault

definition log :: "event \<Rightarrow> world \<Rightarrow> world" where
  "log ev w = w\<lparr>trace := trace w @ [ev]\<rparr>"

section \<open>The operations\<close>

text \<open>
  \<^verbatim>\<open>ABT_cond_create\<close> (cond.c 26-63). \<open>m_cond\<close> and \<open>m_entry\<close> are what the two
  calls of \<^verbatim>\<open>ABTU_malloc\<close> return, \<open>mc\<close> is the error code and the handle that
  \<^verbatim>\<open>ABT_mutex_create\<close> yields, \<open>newcond\<close> the content of the out-parameter before the call.
  The result pairs the error code with the content of \<^verbatim>\<open>*newcond\<close> afterwards. When
  \<^verbatim>\<open>ABT_mutex_create\<close> fails the block at \<open>m_cond\<close> is leaked without having been
  initialised and without a handle to it; it is not entered into \<open>conds\<close>.
\<close>

definition ABT_cond_create ::
  "addr option \<Rightarrow> abt_errno \<times> ABT_mutex \<Rightarrow> addr option \<Rightarrow> ABT_cond \<Rightarrow> world
     \<Rightarrow> (abt_errno \<times> ABT_cond) outcome" where
  "ABT_cond_create m_cond mc m_entry newcond w =
     (case m_cond of
        None \<Rightarrow> Return (ABT_ERR_MEM, ABT_COND_NULL) w
      | Some p_newcond \<Rightarrow>
          if fst mc \<noteq> ABT_SUCCESS then Return (fst mc, newcond) w
          else
            (case m_entry of
               None \<Rightarrow> Abort w
             | Some p_entry \<Rightarrow>
                 Return (ABT_SUCCESS, Some p_newcond)
                   (w\<lparr>entries := fmupd p_entry
                          \<lparr>current = None, next = None, type = None\<rparr> (entries w),
                       conds := fmupd p_newcond
                          \<lparr>mutex = snd mc, waiter_mutex = ABT_MUTEX_NULL, num_waiters = 0,
                           waiters_head = Some p_entry, waiters_tail = Some p_entry\<rparr>
                          (conds w)\<rparr>)))"

text \<open>
  The caller of \<^verbatim>\<open>ABT_cond_wait\<close> (cond.c 131-142): the pointer to queue and its type,
  or \<open>None\<close> where the source fails with \<^verbatim>\<open>ABT_ERR_COND\<close>.
\<close>

definition caller_kind :: "ABTI_local option \<Rightarrow> addr \<Rightarrow> (addr \<times> ABT_unit_type) option" where
  "caller_kind lp_ABTI_local p_ext_signal =
     (case lp_ABTI_local of
        Some l \<Rightarrow>
          (case p_thread l of
             None \<Rightarrow> None
           | Some t \<Rightarrow> Some (t, ABT_UNIT_TYPE_THREAD))
      | None \<Rightarrow> Some (p_ext_signal, ABT_UNIT_TYPE_EXT))"

text \<open>
  Modelled from the spec: \<^verbatim>\<open>ABT_mutex_equal\<close> belongs to the mutex primitive, defined in
  another file; it compares two mutex handles by identity.
\<close>

definition ABT_mutex_equal :: "ABT_mutex \<Rightarrow> ABT_mutex \<Rightarrow> bool" where
  "ABT_mutex_equal mutex1 mutex2 = (mutex1 = mutex2)"

text \<open>
  \<^verbatim>\<open>ABT_cond_wait\<close> (cond.c 121-205) up to the point where the caller is parked, in three
  parts. \<open>lp_ABTI_local\<close> is the thread-local of the calling OS thread, \<open>p_ext_signal\<close> the
  address of the local variable \<^verbatim>\<open>ext_signal\<close> in the caller's frame, \<open>m_entry\<close> what
  \<^verbatim>\<open>ABTU_malloc\<close> returns if it is called. From line 146 on, \<open>c\<close> is the content of
  \<^verbatim>\<open>*p_cond\<close> with the assignments so far; it is stored wherever the call ends.

  Last part (cond.c 174-194): the counter, the state of the ULT, the two unlocks, and the
  caller is parked.
\<close>

definition ABT_cond_wait_suspend ::
  "addr \<Rightarrow> ABT_unit_type \<Rightarrow> addr \<Rightarrow> ABT_mutex \<Rightarrow> ABTI_cond \<Rightarrow> world \<Rightarrow> abt_errno outcome" where
  "ABT_cond_wait_suspend p_thr ty p_cond mutex0 c w =
     (let w1 = w\<lparr>conds := fmupd p_cond (c\<lparr>num_waiters := num_waiters c + 1\<rparr>) (conds w)\<rparr>;
          w2 = (if ty = ABT_UNIT_TYPE_THREAD
                then log (THREAD_SET_BLOCKED p_thr)
                       (w1\<lparr>thread_state := (thread_state w1)(p_thr := BLOCKED)\<rparr>)
                else w1);
          w3 = log (MUTEX_UNLOCK (mutex c)) w2;
          w4 = log (MUTEX_UNLOCK mutex0) w3
      in Suspend w4)"

text \<open>
  Middle part (cond.c 158-172): the first waiter takes the node at the head; for any other
  waiter a node is allocated, filled in and linked behind the tail.
\<close>

definition ABT_cond_wait_enqueue ::
  "addr \<Rightarrow> ABT_unit_type \<Rightarrow> addr option \<Rightarrow> addr \<Rightarrow> ABT_mutex \<Rightarrow> ABTI_cond \<Rightarrow> world
     \<Rightarrow> abt_errno outcome" where
  "ABT_cond_wait_enqueue p_thr ty m_entry p_cond mutex0 c w =
     (if num_waiters c = 0 then
        (case waiters_head c of
           None \<Rightarrow> Fault
         | Some h \<Rightarrow>
             (case fmlookup (entries w) h of
                None \<Rightarrow> Fault
              | Some e \<Rightarrow>
                  ABT_cond_wait_suspend p_thr ty p_cond mutex0 c
                    (w\<lparr>entries := fmupd h (e\<lparr>current := Some p_thr, type := Some ty\<rparr>)
                                    (entries w)\<rparr>)))
      else
        (case m_entry of
           None \<Rightarrow> Abort (w\<lparr>conds := fmupd p_cond c (conds w)\<rparr>)
         | Some p_entry \<Rightarrow>
             let es = fmupd p_entry \<lparr>current = Some p_thr, next = None, type = None\<rparr> (entries w)
             in
             (case waiters_tail c of
                None \<Rightarrow> Fault
              | Some t \<Rightarrow>
                  (case fmlookup es t of
                     None \<Rightarrow> Fault
                   | Some et \<Rightarrow>
                       let es1 = fmupd t (et\<lparr>next := Some p_entry\<rparr>) es in
                       (case fmlookup es1 p_entry of
                          None \<Rightarrow> Fault
                        | Some en \<Rightarrow>
                            ABT_cond_wait_suspend p_thr ty p_cond mutex0
                              (c\<lparr>waiters_tail := Some p_entry\<rparr>)
                              (w\<lparr>entries := fmupd p_entry (en\<lparr>type := Some ty\<rparr>) es1\<rparr>))))))"

text \<open>
  First part (cond.c 121-156): the handle, the caller, the guard, and the association of the
  user mutex.
\<close>

definition ABT_cond_wait ::
  "ABTI_local option \<Rightarrow> addr \<Rightarrow> addr option \<Rightarrow> ABT_cond \<Rightarrow> ABT_mutex \<Rightarrow> world
     \<Rightarrow> abt_errno outcome" where
  "ABT_cond_wait lp_ABTI_local p_ext_signal m_entry cond mutex0 w =
     (case cond of
        None \<Rightarrow> Return ABT_ERR_INV_COND w
      | Some p_cond \<Rightarrow>
          let w0 = w\<lparr>ext_signal := (ext_signal w)(p_ext_signal := 0)\<rparr> in
          (case caller_kind lp_ABTI_local p_ext_signal of
             None \<Rightarrow> Return ABT_ERR_COND w0
           | Some (p_thr, ty) \<Rightarrow>
               (case fmlookup (conds w0) p_cond of
                  None \<Rightarrow> Fault
                | Some c \<Rightarrow>
                    let w1 = log (MUTEX_SPINLOCK (mutex c)) w0 in
                    if waiter_mutex c = ABT_MUTEX_NULL
                    then ABT_cond_wait_enqueue p_thr ty m_entry p_cond mutex0
                           (c\<lparr>waiter_mutex := mutex0\<rparr>) w1
                    else if \<not> ABT_mutex_equal (waiter_mutex c) mutex0
                    then Return ABT_ERR_INV_MUTEX (log (MUTEX_UNLOCK (mutex c)) w1)
                    else ABT_cond_wait_enqueue p_thr ty m_entry p_cond mutex0 c w1)))"

lemmas wait_defs =
  ABT_cond_wait_def ABT_cond_wait_enqueue_def ABT_cond_wait_suspend_def ABT_mutex_equal_def

text \<open>
  Waking the target of a queue node (cond.c 236-242, 293-299, 304-310): a ULT is handed to
  \<^verbatim>\<open>ABTI_thread_set_ready\<close>, which makes it \<open>READY\<close>; for any other type 1 is stored
  through the pointer. \<open>None\<close> when the pointer is \<^verbatim>\<open>NULL\<close>.
\<close>

definition wake :: "ABTI_thread_entry \<Rightarrow> world \<Rightarrow> world option" where
  "wake e w =
     (case current e of
        None \<Rightarrow> None
      | Some t \<Rightarrow>
          if type e = Some ABT_UNIT_TYPE_THREAD
          then Some (log (THREAD_SET_READY t) (w\<lparr>thread_state := (thread_state w)(t := READY)\<rparr>))
          else Some (log (EXT_SIGNAL t) (w\<lparr>ext_signal := (ext_signal w)(t := 1)\<rparr>)))"

text \<open>\<^verbatim>\<open>ABT_cond_signal\<close> (cond.c 221-262).\<close>

definition ABT_cond_signal :: "ABT_cond \<Rightarrow> world \<Rightarrow> abt_errno outcome" where
  "ABT_cond_signal cond w =
     (case cond of
        None \<Rightarrow> Return ABT_ERR_INV_COND w
      | Some p_cond \<Rightarrow>
          (case fmlookup (conds w) p_cond of
             None \<Rightarrow> Fault
           | Some c \<Rightarrow>
               let w1 = log (MUTEX_LOCK (mutex c)) w in
               if num_waiters c = 0 then Return ABT_SUCCESS (log (MUTEX_UNLOCK (mutex c)) w1)
               else
                 (case waiters_head c of
                    None \<Rightarrow> Fault
                  | Some h \<Rightarrow>
                      (case fmlookup (entries w1) h of
                         None \<Rightarrow> Fault
                       | Some e \<Rightarrow>
                           (case wake e w1 of
                              None \<Rightarrow> Fault
                            | Some w2 \<Rightarrow>
                                let (c1, es) =
                                      (if num_waiters c = 1
                                       then (c\<lparr>waiter_mutex := ABT_MUTEX_NULL\<rparr>,
                                             fmupd h (e\<lparr>current := None\<rparr>) (entries w2))
                                       else (c\<lparr>waiters_head := next e\<rparr>,
                                             fmdrop h (entries w2)));
                                    w3 = w2\<lparr>entries := es,
                                            conds := fmupd p_cond
                                              (c1\<lparr>num_waiters := num_waiters c1 - 1\<rparr>) (conds w2)\<rparr>
                                in Return ABT_SUCCESS (log (MUTEX_UNLOCK (mutex c)) w3))))))"

text \<open>
  The loop of \<^verbatim>\<open>ABT_cond_broadcast\<close> (cond.c 303-314): every node from \<open>head\<close> on is
  woken and then freed. \<open>None\<close> when a node is not allocated (any more) or carries no target.
\<close>

function broadcast_loop :: "addr option \<Rightarrow> world \<Rightarrow> world option" where
  "broadcast_loop head w =
     (case head of
        None \<Rightarrow> Some w
      | Some h \<Rightarrow>
          (case fmlookup (entries w) h of
             None \<Rightarrow> None
           | Some e \<Rightarrow>
               (case wake e w of
                  None \<Rightarrow> None
                | Some w1 \<Rightarrow> broadcast_loop (next e) (w1\<lparr>entries := fmdrop h (entries w1)\<rparr>))))"
  by pat_completeness auto
termination
proof (relation "measure (\<lambda>(head, w). card (fmdom' (entries w)))", goal_cases)
  case 1
  show ?case by simp
next
  case (2 head w h e w1)
  then have "h \<in> fmdom' (entries w)" and "entries w1 = entries w"
    by (auto simp: wake_def log_def intro: fmdom'I split: option.splits if_splits)
  then have "card (fmdom' (entries w) - {h}) < card (fmdom' (entries w))"
    by (intro card_Diff1_less) simp_all
  with \<open>entries w1 = entries w\<close> show ?case
    by simp
qed

declare broadcast_loop.simps [simp del]

text \<open>\<^verbatim>\<open>ABT_cond_broadcast\<close> (cond.c 277-329).\<close>

definition ABT_cond_broadcast :: "ABT_cond \<Rightarrow> world \<Rightarrow> abt_errno outcome" where
  "ABT_cond_broadcast cond w =
     (case cond of
        None \<Rightarrow> Return ABT_ERR_INV_COND w
      | Some p_cond \<Rightarrow>
          (case fmlookup (conds w) p_cond of
             None \<Rightarrow> Fault
           | Some c \<Rightarrow>
               let w1 = log (MUTEX_LOCK (mutex c)) w in
               if num_waiters c = 0 then Return ABT_SUCCESS (log (MUTEX_UNLOCK (mutex c)) w1)
               else
                 (case waiters_head c of
                    None \<Rightarrow> Fault
                  | Some h \<Rightarrow>
                      (case fmlookup (entries w1) h of
                         None \<Rightarrow> Fault
                       | Some e \<Rightarrow>
                           (case wake e w1 of
                              None \<Rightarrow> Fault
                            | Some w2 \<Rightarrow>
                                let w3 = w2\<lparr>entries := fmupd h (e\<lparr>current := None\<rparr>) (entries w2)\<rparr> in
                                (case broadcast_loop (next e) w3 of
                                   None \<Rightarrow> Fault
                                 | Some w4 \<Rightarrow>
                                     (case fmlookup (entries w4) h of
                                        None \<Rightarrow> Fault
                                      | Some e1 \<Rightarrow>
                                          Return ABT_SUCCESS
                                            (log (MUTEX_UNLOCK (mutex c))
                                               (w4\<lparr>entries := fmupd h (e1\<lparr>next := None\<rparr>) (entries w4),
                                                   conds := fmupd p_cond
                                                     (c\<lparr>waiters_tail := Some h, num_waiters := 0,
                                                        waiter_mutex := ABT_MUTEX_NULL\<rparr>)
                                                     (conds w4)\<rparr>)))))))))"

section \<open>Data model and accounting of \<^verbatim>\<open>src/include/abti_pool.h\<close>\<close>

text \<open>
  The fields of \<^verbatim>\<open>ABTI_pool\<close> that the accounting functions touch. The three counters are
  \<^verbatim>\<open>int32_t\<close> atomics, read and written here one call at a time; \<open>p_get_size\<close> is the
  function pointer of the pool implementation, which reads the implementation's own \<open>data\<close>
  and returns a \<^verbatim>\<open>size_t\<close>, taken to be 64 bits wide.
\<close>

record 'a ABTI_pool =
  num_blocked :: "32 word"
  num_migrations :: "32 word"
  num_scheds :: "32 word"
  data :: 'a
  p_get_size :: "'a \<Rightarrow> 64 word"

definition ABTI_pool_inc_num_blocked :: "'a ABTI_pool \<Rightarrow> 'a ABTI_pool" where
  "ABTI_pool_inc_num_blocked p_pool = p_pool\<lparr>num_blocked := num_blocked p_pool + 1\<rparr>"

definition ABTI_pool_dec_num_blocked :: "'a ABTI_pool \<Rightarrow> 'a ABTI_pool" where
  "ABTI_pool_dec_num_blocked p_pool = p_pool\<lparr>num_blocked := num_blocked p_pool - 1\<rparr>"

definition ABTI_pool_inc_num_migrations :: "'a ABTI_pool \<Rightarrow> 'a ABTI_pool" where
  "ABTI_pool_inc_num_migrations p_pool = p_pool\<lparr>num_migrations := num_migrations p_pool + 1\<rparr>"

definition ABTI_pool_dec_num_migrations :: "'a ABTI_pool \<Rightarrow> 'a ABTI_pool" where
  "ABTI_pool_dec_num_migrations p_pool = p_pool\<lparr>num_migrations := num_migrations p_pool - 1\<rparr>"

definition ABTI_pool_get_size :: "'a ABTI_pool \<Rightarrow> 64 word" where
  "ABTI_pool_get_size p_pool = p_get_size p_pool (data p_pool)"

text \<open>
  \<^verbatim>\<open>ABTI_pool_get_total_size\<close> (abti_pool.h 247-254): each \<^verbatim>\<open>+=\<close> converts the
  \<^verbatim>\<open>int32_t\<close> it loads to \<^verbatim>\<open>size_t\<close> (sign extension) and adds modulo \<open>2^64\<close>.
\<close>

definition ABTI_pool_get_total_size :: "'a ABTI_pool \<Rightarrow> 64 word" where
  "ABTI_pool_get_total_size p_pool =
     (let total_size = ABTI_pool_get_size p_pool;
          total_size = total_size + scast (num_blocked p_pool);
          total_size = total_size + scast (num_migrations p_pool)
      in total_size)"

section \<open>Waiter queues in memory, and runs of calls\<close>

text \<open>
  \<open>path es p as\<close>: following \<open>next\<close> from the pointer \<open>p\<close> visits exactly the allocated
  nodes \<open>as\<close>, in this order, and then reaches \<^verbatim>\<open>NULL\<close>.
\<close>

primrec path :: "(addr, ABTI_thread_entry) fmap \<Rightarrow> addr option \<Rightarrow> addr list \<Rightarrow> bool" where
  "path es p [] = (p = None)"
| "path es p (a # as) =
     (p = Some a \<and> (case fmlookup es a of None \<Rightarrow> False | Some e \<Rightarrow> path es (next e) as))"

text \<open>
  The waiters that the nodes \<open>as\<close> hold, in the order of the nodes: the type and the target of
  every node whose \<open>current\<close> is not \<^verbatim>\<open>NULL\<close>. The empty sentinel holds no waiter.
\<close>

primrec queue ::
  "(addr, ABTI_thread_entry) fmap \<Rightarrow> addr list \<Rightarrow> (ABT_unit_type option \<times> addr) list" where
  "queue es [] = []"
| "queue es (a # as) =
     (case fmlookup es a of
        None \<Rightarrow> queue es as
      | Some e \<Rightarrow>
          (case current e of
             None \<Rightarrow> queue es as
           | Some t \<Rightarrow> (type e, t) # queue es as))"

text \<open>The event by which a waiter is woken, and what being woken means for it.\<close>

fun wake_event :: "ABT_unit_type option \<times> addr \<Rightarrow> event" where
  "wake_event (ty, t) =
     (if ty = Some ABT_UNIT_TYPE_THREAD then THREAD_SET_READY t else EXT_SIGNAL t)"

fun woken :: "world \<Rightarrow> ABT_unit_type option \<times> addr \<Rightarrow> bool" where
  "woken w (ty, t) =
     (if ty = Some ABT_UNIT_TYPE_THREAD then thread_state w t = READY else ext_signal w t = 1)"

text \<open>
  The condition variable at \<open>p\<close> is well formed, with the nodes \<open>as\<close> from head to tail:
  the nodes are distinct, \<open>waiters_tail\<close> points to the last one, there are as many nodes as
  waiters except that a single node remains when there is no waiter, and the number of waiters
  the nodes hold is \<open>num_waiters\<close>.
\<close>

definition cv_inv :: "world \<Rightarrow> addr \<Rightarrow> addr list \<Rightarrow> bool" where
  "cv_inv w p as =
     (case fmlookup (conds w) p of
        None \<Rightarrow> False
      | Some c \<Rightarrow>
          path (entries w) (waiters_head c) as \<and> distinct as \<and> as \<noteq> [] \<and>
          waiters_tail c = Some (last as) \<and>
          length (queue (entries w) as) = num_waiters c \<and>
          length as = max 1 (num_waiters c))"

text \<open>
  All condition variables are well formed, \<open>ns p\<close> being the nodes of the one at \<open>p\<close>, and no
  node belongs to two of them.
\<close>

definition world_inv :: "world \<Rightarrow> (addr \<Rightarrow> addr list) \<Rightarrow> bool" where
  "world_inv w ns =
     ((\<forall>p. p \<in> fmdom' (conds w) \<longrightarrow> cv_inv w p (ns p)) \<and>
      (\<forall>p q. p \<in> fmdom' (conds w) \<longrightarrow> q \<in> fmdom' (conds w) \<longrightarrow> p \<noteq> q \<longrightarrow>
         set (ns p) \<inter> set (ns q) = {}))"

text \<open>
  Calls of the four operations, with everything that the environment contributes to a call.
\<close>

datatype call =
    Create "addr option" "abt_errno \<times> ABT_mutex" "addr option" ABT_cond
  | Wait "ABTI_local option" addr "addr option" ABT_cond ABT_mutex
  | Signal ABT_cond
  | Broadcast ABT_cond

text \<open>
  The world a call leaves behind when it returns or parks its caller; none after a failed
  assertion or an invalid memory access.
\<close>

fun after :: "'r outcome \<Rightarrow> world option" where
  "after (Return r w) = Some w"
| "after (Suspend w) = Some w"
| "after (Abort w) = None"
| "after Fault = None"

fun exec :: "call \<Rightarrow> world \<Rightarrow> world option" where
  "exec (Create m_cond mc m_entry newcond) w = after (ABT_cond_create m_cond mc m_entry newcond w)"
| "exec (Wait lp px m_entry cond mutex0) w = after (ABT_cond_wait lp px m_entry cond mutex0 w)"
| "exec (Signal cond) w = after (ABT_cond_signal cond w)"
| "exec (Broadcast cond) w = after (ABT_cond_broadcast cond w)"

text \<open>\<^verbatim>\<open>ABTU_malloc\<close> never returns a block that is still allocated.\<close>

fun malloc_ok :: "call \<Rightarrow> world \<Rightarrow> bool" where
  "malloc_ok (Create m_cond mc m_entry newcond) w =
     ((case m_cond of None \<Rightarrow> True | Some a \<Rightarrow> fmlookup (conds w) a = None) \<and>
      (case m_entry of None \<Rightarrow> True | Some a \<Rightarrow> fmlookup (entries w) a = None))"
| "malloc_ok (Wait lp px m_entry cond mutex0) w =
     (case m_entry of None \<Rightarrow> True | Some a \<Rightarrow> fmlookup (entries w) a = None)"
| "malloc_ok (Signal cond) w = True"
| "malloc_ok (Broadcast cond) w = True"

text \<open>
  A run: the calls take effect one after the other (each holds the guard of its condition
  variable while it works on it). \<open>None\<close> when a call does not get as far as returning or
  parking, or when it is handed a block that is still allocated.
\<close>

fun run :: "call list \<Rightarrow> world \<Rightarrow> world option" where
  "run [] w = Some w"
| "run (cl # cls) w =
     (if malloc_ok cl w
      then (case exec cl w of None \<Rightarrow> None | Some w' \<Rightarrow> run cls w')
      else None)"

text \<open>The user mutex of a call of \<^verbatim>\<open>ABT_cond_wait\<close> is not the null handle.\<close>

fun mutex_not_null :: "call \<Rightarrow> bool" where
  "mutex_not_null (Wait lp px m_entry cond mutex0) = (mutex0 \<noteq> ABT_MUTEX_NULL)"
| "mutex_not_null cl = True"

text \<open>
  \<open>waits cs cond mutex0 w\<close>: the calls \<open>cs\<close> of \<^verbatim>\<open>ABT_cond_wait\<close> on \<open>cond\<close> with the
  user mutex \<open>mutex0\<close> take effect in this order, and every one of them queues its caller.
  \<open>signals n cond w\<close>: \<open>n\<close> calls of \<^verbatim>\<open>ABT_cond_signal\<close> in a row, all successful.
\<close>

fun waits ::
  "(ABTI_local option \<times> addr \<times> addr option) list \<Rightarrow> ABT_cond \<Rightarrow> ABT_mutex \<Rightarrow> world
     \<Rightarrow> world option" where
  "waits [] cond mutex0 w = Some w"
| "waits ((lp, px, m_entry) # cs) cond mutex0 w =
     (if malloc_ok (Wait lp px m_entry cond mutex0) w
      then (case ABT_cond_wait lp px m_entry cond mutex0 w of
              Suspend w' \<Rightarrow> waits cs cond mutex0 w'
            | _ \<Rightarrow> None)
      else None)"

fun signals :: "nat \<Rightarrow> ABT_cond \<Rightarrow> world \<Rightarrow> world option" where
  "signals 0 cond w = Some w"
| "signals (Suc n) cond w =
     (case ABT_cond_signal cond w of
        Return e w' \<Rightarrow> if e = ABT_SUCCESS then signals n cond w' else None
      | _ \<Rightarrow> None)"

text \<open>A world without any condition variable, for the examples.\<close>

definition world0 :: world where
  "world0 =
     \<lparr>conds = fmempty, entries = fmempty, thread_state = (\<lambda>t. RUNNING),
      ext_signal = (\<lambda>a. 0), trace = []\<rparr>"

text \<open>
  Example worlds: one condition variable at address 100 with guard 9 and sentinel node 10,
  just created (\<open>world1\<close>); then with ULT 40 waiting on mutex 7 (\<open>world2\<close>); then with an
  external thread waiting as well, its flag at 6 and its node at 11 (\<open>world3\<close>).
\<close>

definition world1 :: world where
  "world1 = world0
     \<lparr>conds := fmupd 100 \<lparr>mutex = Some 9, waiter_mutex = ABT_MUTEX_NULL, num_waiters = 0,
                        waiters_head = Some 10, waiters_tail = Some 10\<rparr> fmempty,
      entries := fmupd 10 \<lparr>current = None, next = None, type = None\<rparr> fmempty\<rparr>"

definition world2 :: world where
  "world2 = world1
     \<lparr>conds := fmupd 100 \<lparr>mutex = Some 9, waiter_mutex = Some 7, num_waiters = 1,
                        waiters_head = Some 10, waiters_tail = Some 10\<rparr> fmempty,
      entries := fmupd 10 \<lparr>current = Some 40, next = None, type = Some ABT_UNIT_TYPE_THREAD\<rparr>
                   fmempty,
      thread_state := (thread_state world1)(40 := BLOCKED),
      ext_signal := (ext_signal world1)(5 := 0),
      trace := [MUTEX_SPINLOCK (Some 9), THREAD_SET_BLOCKED 40, MUTEX_UNLOCK (Some 9),
                MUTEX_UNLOCK (Some 7)]\<rparr>"

definition world3 :: world where
  "world3 = world2
     \<lparr>conds := fmupd 100 \<lparr>mutex = Some 9, waiter_mutex = Some 7, num_waiters = 2,
                        waiters_head = Some 10, waiters_tail = Some 11\<rparr> fmempty,
      entries := fmupd 11 \<lparr>current = Some 6, next = None, type = Some ABT_UNIT_TYPE_EXT\<rparr>
                  (fmupd 10 \<lparr>current = Some 40, next = Some 11, type = Some ABT_UNIT_TYPE_THREAD\<rparr>
                   fmempty),
      ext_signal := (ext_signal world2)(6 := 0),
      trace := trace world2 @ [MUTEX_SPINLOCK (Some 9), MUTEX_UNLOCK (Some 9),
                MUTEX_UNLOCK (Some 7)]\<rparr>"

text \<open>\<open>world2\<close> after a signal: ULT 40 is ready again, the condition variable is empty.\<close>

definition world4 :: world where
  "world4 = world2
     \<lparr>conds := fmupd 100 \<lparr>mutex = Some 9, waiter_mutex = ABT_MUTEX_NULL, num_waiters = 0,
                          waiters_head = Some 10, waiters_tail = Some 10\<rparr> fmempty,
      entries := fmupd 10 \<lparr>current = None, next = None, type = Some ABT_UNIT_TYPE_THREAD\<rparr>
                   fmempty,
      thread_state := (thread_state world2)(40 := READY),
      trace := trace world2 @ [MUTEX_LOCK (Some 9), THREAD_SET_READY 40, MUTEX_UNLOCK (Some 9)]\<rparr>"

section \<open>Paths and queues\<close>

lemma path_cong:
  "(\<And>a. a \<in> set as \<Longrightarrow> fmlookup es' a = fmlookup es a) \<Longrightarrow> path es' p as = path es p as"
  by (induction as arbitrary: p) (auto split: option.splits)

lemma queue_cong:
  "(\<And>a. a \<in> set as \<Longrightarrow> fmlookup es' a = fmlookup es a) \<Longrightarrow> queue es' as = queue es as"
  by (induction as) (auto split: option.splits)

lemma path_allocated: "path es p as \<Longrightarrow> a \<in> set as \<Longrightarrow> fmlookup es a \<noteq> None"
  by (induction as arbitrary: p) (auto split: option.splits)

lemma path_hd: "path es p as \<Longrightarrow> as \<noteq> [] \<Longrightarrow> p = Some (hd as)"
  by (cases as) auto

lemma queue_append: "queue es (as @ bs) = queue es as @ queue es bs"
  by (induction as) (auto split: option.splits)

lemma queue_length_le: "length (queue es as) \<le> length as"
  by (induction as) (auto split: option.splits)

lemma queue_full:
  "length (queue es as) = length as \<Longrightarrow> a \<in> set as \<Longrightarrow>
     \<exists>e t. fmlookup es a = Some e \<and> current e = Some t"
proof (induction as)
  case Nil
  then show ?case by simp
next
  case (Cons b bs)
  have le: "length (queue es bs) \<le> length bs" by (rule queue_length_le)
  from Cons.prems(1) le have hd: "\<exists>e t. fmlookup es b = Some e \<and> current e = Some t"
    and tl: "length (queue es bs) = length bs"
    by (auto split: option.splits)
  with Cons show ?case by auto
qed

lemma path_snoc:
  assumes "path es p as" "as \<noteq> []" "distinct as" "a \<notin> set as"
    and "fmlookup es (last as) = Some e" "next n = None"
  shows "path (fmupd a n (fmupd (last as) (e\<lparr>next := Some a\<rparr>) es)) p (as @ [a])"
  using assms
proof (induction as arbitrary: p)
  case Nil
  then show ?case by simp
next
  case (Cons b bs)
  show ?case
  proof (cases "bs = []")
    case True
    with Cons.prems show ?thesis by (auto split: option.splits)
  next
    case False
    with Cons.prems obtain eb where eb: "fmlookup es b = Some eb" "path es (next eb) bs" "p = Some b"
      by (auto split: option.splits)
    from False Cons.prems have "path (fmupd a n (fmupd (last bs) (e\<lparr>next := Some a\<rparr>) es)) (next eb) (bs @ [a])"
      using eb by (intro Cons.IH) auto
    moreover from False Cons.prems have "b \<noteq> last bs" by auto
    ultimately show ?thesis using eb False Cons.prems by auto
  qed
qed


lemma wait_no_ult:
  assumes "caller_kind lp px = None"
  shows "ABT_cond_wait lp px me (Some p) m w = Return ABT_ERR_COND (w\<lparr>ext_signal := (ext_signal w)(px := 0)\<rparr>)"
  using assms by (simp add: ABT_cond_wait_def)

lemma wait_mismatch:
  assumes "fmlookup (conds w) p = Some c" "caller_kind lp px = Some (t, ty)"
    "waiter_mutex c \<noteq> None" "waiter_mutex c \<noteq> m"
  shows "ABT_cond_wait lp px me (Some p) m w = Return ABT_ERR_INV_MUTEX
     (w\<lparr>ext_signal := (ext_signal w)(px := 0),
        trace := trace w @ [MUTEX_SPINLOCK (mutex c), MUTEX_UNLOCK (mutex c)]\<rparr>)"
  using assms
  by (cases "waiter_mutex c") (simp_all add: ABT_cond_wait_def ABT_mutex_equal_def Let_def log_def)

lemma assoc_mutex:
  assumes "fmlookup (conds w) p = Some c" "caller_kind lp px = Some (t, ty)"
    "waiter_mutex c = None \<or> waiter_mutex c = m"
  shows "ABT_cond_wait lp px me (Some p) m w =
     ABT_cond_wait_enqueue t ty me p m (c\<lparr>waiter_mutex := m\<rparr>)
       (w\<lparr>ext_signal := (ext_signal w)(px := 0),
          trace := trace w @ [MUTEX_SPINLOCK (mutex c)]\<rparr>)"
proof (cases "waiter_mutex c = None")
  case True
  with assms(1,2) show ?thesis
    by (simp add: ABT_cond_wait_def Let_def log_def)
next
  case False
  with assms(3) have m: "waiter_mutex c = m" by simp
  then have eq: "c\<lparr>waiter_mutex := m\<rparr> = c" by (cases c) simp
  from False m obtain y where y: "m = Some y" "waiter_mutex c = Some y" by auto
  have "ABT_cond_wait lp px me (Some p) m w =
     ABT_cond_wait_enqueue t ty me p m c
       (w\<lparr>ext_signal := (ext_signal w)(px := 0),
          trace := trace w @ [MUTEX_SPINLOCK (mutex c)]\<rparr>)"
    using assms(1,2) y(2) unfolding y(1)
    by (simp add: ABT_cond_wait_def ABT_mutex_equal_def Let_def log_def)
  then show ?thesis
    by (simp only: eq)
qed

lemma wait_first:
  assumes "fmlookup (conds w) p = Some c" "caller_kind lp px = Some (t, ty)"
    "waiter_mutex c = None \<or> waiter_mutex c = m" "num_waiters c = 0"
    "waiters_head c = Some h" "fmlookup (entries w) h = Some e"
  shows "ABT_cond_wait lp px me (Some p) m w = Suspend
     \<lparr>conds = fmupd p (c\<lparr>waiter_mutex := m, num_waiters := 1\<rparr>) (conds w),
      entries = fmupd h (e\<lparr>current := Some t, type := Some ty\<rparr>) (entries w),
      thread_state = (if ty = ABT_UNIT_TYPE_THREAD then (thread_state w)(t := BLOCKED) else thread_state w),
      ext_signal = (ext_signal w)(px := 0),
      trace = trace w @ [MUTEX_SPINLOCK (mutex c)] @ (if ty = ABT_UNIT_TYPE_THREAD then [THREAD_SET_BLOCKED t] else [])
           @ [MUTEX_UNLOCK (mutex c), MUTEX_UNLOCK m]\<rparr>"
  unfolding assoc_mutex [OF assms(1,2,3)] using assms(4-)
  by (simp add: ABT_cond_wait_enqueue_def ABT_cond_wait_suspend_def Let_def log_def)

lemma wait_next:
  assumes "fmlookup (conds w) p = Some c" "caller_kind lp px = Some (t, ty)"
    "waiter_mutex c = None \<or> waiter_mutex c = m" "num_waiters c \<noteq> 0"
    "waiters_tail c = Some tn" "fmlookup (entries w) tn = Some e" "tn \<noteq> a"
  shows "ABT_cond_wait lp px (Some a) (Some p) m w = Suspend
     \<lparr>conds = fmupd p (c\<lparr>waiter_mutex := m, 
             waiters_tail := Some a, num_waiters := num_waiters c + 1\<rparr>) (conds w),
      entries = fmupd a \<lparr>current = Some t, next = None, type = Some ty\<rparr> (fmupd tn (e\<lparr>next := Some a\<rparr>) (entries w)),
      thread_state = (if ty = ABT_UNIT_TYPE_THREAD then (thread_state w)(t := BLOCKED) else thread_state w),
      ext_signal = (ext_signal w)(px := 0),
      trace = trace w @ [MUTEX_SPINLOCK (mutex c)] @ (if ty = ABT_UNIT_TYPE_THREAD then [THREAD_SET_BLOCKED t] else [])
           @ [MUTEX_UNLOCK (mutex c), MUTEX_UNLOCK m]\<rparr>"
  unfolding assoc_mutex [OF assms(1,2,3)] using assms(4-)
  by (simp add: ABT_cond_wait_enqueue_def ABT_cond_wait_suspend_def Let_def log_def
        fmupd_reorder_neq)

lemma wait_abort:
  assumes "fmlookup (conds w) p = Some c" "caller_kind lp px = Some (t, ty)"
    "waiter_mutex c = None \<or> waiter_mutex c = m" "num_waiters c \<noteq> 0"
  shows "ABT_cond_wait lp px None (Some p) m w = Abort
     (w\<lparr>ext_signal := (ext_signal w)(px := 0),
        conds := fmupd p (c\<lparr>waiter_mutex := m\<rparr>) (conds w),
        trace := trace w @ [MUTEX_SPINLOCK (mutex c)]\<rparr>)"
  unfolding assoc_mutex [OF assms(1,2,3)] using assms(4-)
  by (simp add: ABT_cond_wait_enqueue_def)

lemma signal_empty:
  assumes "fmlookup (conds w) p = Some c" "num_waiters c = 0"
  shows "ABT_cond_signal (Some p) w =
     Return ABT_SUCCESS (w\<lparr>trace := trace w @ [MUTEX_LOCK (mutex c), MUTEX_UNLOCK (mutex c)]\<rparr>)"
  using assms by (simp add: ABT_cond_signal_def Let_def log_def)

lemma signal_last:
  assumes "fmlookup (conds w) p = Some c" "num_waiters c = 1"
    "waiters_head c = Some h" "fmlookup (entries w) h = Some e" "current e = Some t"
  shows "ABT_cond_signal (Some p) w = Return ABT_SUCCESS
     \<lparr>conds = fmupd p (c\<lparr>waiter_mutex := None, num_waiters := 0\<rparr>) (conds w),
      entries = fmupd h (e\<lparr>current := None\<rparr>) (entries w),
      thread_state = (if type e = Some ABT_UNIT_TYPE_THREAD then (thread_state w)(t := READY) else thread_state w),
      ext_signal = (if type e = Some ABT_UNIT_TYPE_THREAD then ext_signal w else (ext_signal w)(t := 1)),
      trace = trace w @ [MUTEX_LOCK (mutex c), wake_event (type e, t), MUTEX_UNLOCK (mutex c)]\<rparr>"
  using assms by (simp add: ABT_cond_signal_def Let_def log_def wake_def)

lemma signal_more:
  assumes "fmlookup (conds w) p = Some c" "num_waiters c > 1"
    "waiters_head c = Some h" "fmlookup (entries w) h = Some e" "current e = Some t"
  shows "ABT_cond_signal (Some p) w = Return ABT_SUCCESS
     \<lparr>conds = fmupd p (c\<lparr>waiters_head := next e, num_waiters := num_waiters c - 1\<rparr>) (conds w),
      entries = fmdrop h (entries w),
      thread_state = (if type e = Some ABT_UNIT_TYPE_THREAD then (thread_state w)(t := READY) else thread_state w),
      ext_signal = (if type e = Some ABT_UNIT_TYPE_THREAD then ext_signal w else (ext_signal w)(t := 1)),
      trace = trace w @ [MUTEX_LOCK (mutex c), wake_event (type e, t), MUTEX_UNLOCK (mutex c)]\<rparr>"
  using assms by (simp add: ABT_cond_signal_def Let_def log_def wake_def)

lemma queue_cong2:
  "(\<And>a. a \<in> set as \<Longrightarrow>
       map_option (\<lambda>e. (current e, type e)) (fmlookup es' a) =
       map_option (\<lambda>e. (current e, type e)) (fmlookup es a)) \<Longrightarrow>
   queue es' as = queue es as"
proof (induction as)
  case Nil
  then show ?case by simp
next
  case (Cons b bs)
  from Cons.prems [of b]
  have "map_option (\<lambda>e. (current e, type e)) (fmlookup es' b) =
        map_option (\<lambda>e. (current e, type e)) (fmlookup es b)"
    by simp
  moreover from Cons have "queue es' bs = queue es bs"
    by simp
  ultimately show ?case
    by (cases "fmlookup es b"; cases "fmlookup es' b") (auto split: option.splits)
qed

lemma cv_invD:
  assumes "cv_inv w p as" "fmlookup (conds w) p = Some c"
  shows "path (entries w) (waiters_head c) as" "distinct as" "as \<noteq> []"
    "waiters_tail c = Some (last as)" "length (queue (entries w) as) = num_waiters c"
    "length as = max 1 (num_waiters c)" "waiters_head c = Some (hd as)"
  using assms by (auto simp: cv_inv_def dest: path_hd)

lemma cv_inv_lookup: "cv_inv w p as \<Longrightarrow> \<exists>c. fmlookup (conds w) p = Some c"
  by (auto simp: cv_inv_def split: option.splits)

lemma cv_inv_allocated: "cv_inv w p as \<Longrightarrow> a \<in> set as \<Longrightarrow> \<exists>e. fmlookup (entries w) a = Some e"
  by (auto simp: cv_inv_def split: option.splits dest: path_allocated)

lemma cv_inv_cong:
  assumes "fmlookup (conds w') p = fmlookup (conds w) p"
    and "\<And>a. a \<in> set as \<Longrightarrow> fmlookup (entries w') a = fmlookup (entries w) a"
  shows "cv_inv w' p as = cv_inv w p as"
proof -
  have "path (entries w') x as = path (entries w) x as" for x
    using assms(2) by (rule path_cong)
  moreover have "queue (entries w') as = queue (entries w) as"
    using assms(2) by (rule queue_cong)
  ultimately show ?thesis
    by (simp add: cv_inv_def assms(1) split: option.splits)
qed

text \<open>A condition variable without waiters: one node, the empty sentinel.\<close>

lemma cv_inv_empty:
  assumes "cv_inv w p as" "fmlookup (conds w) p = Some c" "num_waiters c = 0"
  obtains h e where "as = [h]" "waiters_head c = Some h" "waiters_tail c = Some h"
    "fmlookup (entries w) h = Some e" "current e = None" "next e = None"
proof -
  from cv_invD [OF assms(1,2)] assms(3) obtain h where as: "as = [h]"
    by (cases as) auto
  with cv_invD [OF assms(1,2)] assms(3) obtain e where
    "waiters_head c = Some h" "waiters_tail c = Some h" "fmlookup (entries w) h = Some e"
    "current e = None" "next e = None"
    by (auto split: option.splits)
  with as that show thesis by blast
qed

text \<open>A condition variable with waiters: every node holds a waiter.\<close>

lemma cv_inv_nonempty:
  assumes "cv_inv w p as" "fmlookup (conds w) p = Some c" "num_waiters c \<noteq> 0"
  obtains h bs e t where "as = h # bs" "length as = num_waiters c"
    "length (queue (entries w) as) = length as"
    "waiters_head c = Some h" "fmlookup (entries w) h = Some e" "current e = Some t"
    "path (entries w) (next e) bs" "h \<notin> set bs" "distinct bs"
    "queue (entries w) as = (type e, t) # queue (entries w) bs"
proof -
  from cv_invD [OF assms(1,2)] assms(3) have len: "length as = num_waiters c"
    and full: "length (queue (entries w) as) = length as"
    by auto
  from cv_invD [OF assms(1,2)] obtain h bs where as: "as = h # bs"
    by (cases as) auto
  from queue_full [OF full, of h] as obtain e t where
    e: "fmlookup (entries w) h = Some e" "current e = Some t"
    by auto
  with cv_invD [OF assms(1,2)] as len full that [of h bs e t] show thesis
    by auto
qed

lemma cv_inv_wait_first:
  assumes "cv_inv w p as" "fmlookup (conds w) p = Some c" "num_waiters c = 0"
    and "waiters_head c = Some h" "fmlookup (entries w) h = Some e"
    and "conds w' = fmupd p (c\<lparr>waiter_mutex := m, num_waiters := 1\<rparr>) (conds w)"
    and "entries w' = fmupd h (e\<lparr>current := Some t, type := Some ty\<rparr>) (entries w)"
  shows "cv_inv w' p as \<and> queue (entries w') as = queue (entries w) as @ [(Some ty, t)]"
proof -
  from cv_inv_empty [OF assms(1-3)] obtain h' e' where
    "as = [h']" "waiters_head c = Some h'" "waiters_tail c = Some h'"
    "fmlookup (entries w) h' = Some e'" "current e' = None" "next e' = None"
    by blast
  with assms(4-) show ?thesis
    by (simp add: cv_inv_def)
qed

lemma cv_inv_wait_next:
  assumes "cv_inv w p as" "fmlookup (conds w) p = Some c" "num_waiters c \<noteq> 0"
    and "fmlookup (entries w) a = None"
    and "waiters_tail c = Some tn" "fmlookup (entries w) tn = Some e"
    and "conds w' = fmupd p (c\<lparr>waiter_mutex := m, waiters_tail := Some a,
            num_waiters := num_waiters c + 1\<rparr>) (conds w)"
    and "entries w' = fmupd a \<lparr>current = Some t, next = None, type = Some ty\<rparr>
            (fmupd tn (e\<lparr>next := Some a\<rparr>) (entries w))"
  shows "cv_inv w' p (as @ [a]) \<and>
         queue (entries w') (as @ [a]) = queue (entries w) as @ [(Some ty, t)]"
proof -
  note inv = cv_invD [OF assms(1,2)]
  from inv assms(5) have tn: "tn = last as" by simp
  from assms(4) cv_inv_allocated [OF assms(1), of a] have fresh: "a \<notin> set as" by auto
  from inv(1,3,2) fresh assms(6) [unfolded tn]
  have p: "path (entries w') (waiters_head c) (as @ [a])"
    unfolding assms(8) tn by (rule path_snoc) simp
  have q: "queue (entries w') as = queue (entries w) as"
    using fresh assms(6) by (intro queue_cong2) (auto simp: assms(8))
  have q1: "queue (entries w') [a] = [(Some ty, t)]"
    by (simp add: assms(8))
  from inv assms(3) have "length as = num_waiters c" "length (queue (entries w) as) = num_waiters c"
    by auto
  with p q q1 inv fresh show ?thesis
    by (simp add: cv_inv_def assms(7) queue_append)
qed

lemma cv_inv_signal_last:
  assumes "cv_inv w p as" "fmlookup (conds w) p = Some c" "num_waiters c = 1"
    and "waiters_head c = Some h" "fmlookup (entries w) h = Some e"
    and "conds w' = fmupd p (c\<lparr>waiter_mutex := None, num_waiters := 0\<rparr>) (conds w)"
    and "entries w' = fmupd h (e\<lparr>current := None\<rparr>) (entries w)"
  shows "cv_inv w' p as \<and> queue (entries w') as = tl (queue (entries w) as)"
proof -
  from assms(3) have "num_waiters c \<noteq> 0" by simp
  with assms(1,2) show ?thesis
  proof (rule cv_inv_nonempty, goal_cases)
    case (1 h' bs e' t)
    with assms(3) have bs: "bs = []" by simp
    from 1 assms(4,5) have [simp]: "h' = h" "e' = e" by auto
    from 1(7) bs have nx: "next e = None" by simp
    from cv_invD(4) [OF assms(1,2)] 1(1) bs have tl: "waiters_tail c = Some h" by simp
    have "cv_inv w' p [h]"
      by (simp add: cv_inv_def assms(6,7) nx tl assms(4))
    moreover have "queue (entries w') [h] = []"
      by (simp add: assms(7))
    moreover have "queue (entries w) [h] = [(type e, t)]"
      using 1(6) assms(5) by simp
    ultimately show ?case
      using 1(1) bs by simp
  qed
qed

lemma cv_inv_signal_more:
  assumes "cv_inv w p as" "fmlookup (conds w) p = Some c" "num_waiters c > 1"
    and "waiters_head c = Some h" "fmlookup (entries w) h = Some e"
    and "conds w' = fmupd p (c\<lparr>waiters_head := next e, num_waiters := num_waiters c - 1\<rparr>) (conds w)"
    and "entries w' = fmdrop h (entries w)"
  shows "cv_inv w' p (tl as) \<and> queue (entries w') (tl as) = tl (queue (entries w) as)"
proof -
  from assms(3) have "num_waiters c \<noteq> 0" by simp
  with assms(1,2) show ?thesis
  proof (rule cv_inv_nonempty, goal_cases)
    case (1 h' bs e' t)
    with assms(4,5) have [simp]: "h' = h" "e' = e" by auto
    from 1(8) have same: "\<And>a. a \<in> set bs \<Longrightarrow> fmlookup (entries w') a = fmlookup (entries w) a"
      by (auto simp: assms(7))
    from same have p: "path (entries w') (next e) bs = path (entries w) (next e) bs"
      by (rule path_cong)
    from same have q: "queue (entries w') bs = queue (entries w) bs"
      by (rule queue_cong)
    from 1(1,2) assms(3) have ne: "bs \<noteq> []" by auto
    from cv_invD(4) [OF assms(1,2)] 1(1) ne have "waiters_tail c = Some (last bs)" by simp
    with p q 1 ne assms(3) show ?case
      by (simp add: cv_inv_def assms(6)) linarith
  qed
qed

section \<open>The loop of the broadcast\<close>

lemma broadcast_loop_None [simp]: "broadcast_loop None w = Some w"
  by (subst broadcast_loop.simps) simp

lemma broadcast_loop_Some [simp]:
  "broadcast_loop (Some h) w =
     (case fmlookup (entries w) h of
        None \<Rightarrow> None
      | Some e \<Rightarrow>
          (case wake e w of
             None \<Rightarrow> None
           | Some w1 \<Rightarrow> broadcast_loop (next e) (w1\<lparr>entries := fmdrop h (entries w1)\<rparr>)))"
  by (subst broadcast_loop.simps) simp

lemma wake_live:
  assumes "current e = Some t"
  shows "wake e w = Some
     (w\<lparr>thread_state := (if type e = Some ABT_UNIT_TYPE_THREAD then (thread_state w)(t := READY) else thread_state w),
        ext_signal := (if type e = Some ABT_UNIT_TYPE_THREAD then ext_signal w else (ext_signal w)(t := 1)),
        trace := trace w @ [wake_event (type e, t)]\<rparr>)"
  using assms by (simp add: wake_def log_def)

lemma woken_wake:
  assumes "thread_state w' = (if ty = Some ABT_UNIT_TYPE_THREAD then (thread_state w)(t := READY) else thread_state w)"
    and "ext_signal w' = (if ty = Some ABT_UNIT_TYPE_THREAD then ext_signal w else (ext_signal w)(t := 1))"
  shows "woken w' (ty, t)" and "woken w x \<Longrightarrow> woken w' x"
  using assms by (cases x; auto)+

lemma broadcast_loop_path:
  assumes "path (entries w) p as" "distinct as" "length (queue (entries w) as) = length as"
  shows "\<exists>w'. broadcast_loop p w = Some w' \<and> conds w' = conds w \<and>
           entries w' = fmdrop_set (set as) (entries w) \<and>
           trace w' = trace w @ map wake_event (queue (entries w) as) \<and>
           (\<forall>x\<in>set (queue (entries w) as). woken w' x) \<and>
           (\<forall>x. woken w x \<longrightarrow> woken w' x)"
  using assms
proof (induction as arbitrary: p w)
  case Nil
  then show ?case by simp
next
  case (Cons a as)
  from Cons.prems(1) obtain e where e: "p = Some a" "fmlookup (entries w) a = Some e"
    "path (entries w) (next e) as"
    by (auto split: option.splits)
  from queue_full [OF Cons.prems(3), of a] e obtain t where t: "current e = Some t"
    by auto
  with e Cons.prems(3) have q: "queue (entries w) (a # as) = (type e, t) # queue (entries w) as"
    and full: "length (queue (entries w) as) = length as"
    by auto
  define w1 where "w1 = w\<lparr>thread_state := (if type e = Some ABT_UNIT_TYPE_THREAD then (thread_state w)(t := READY) else thread_state w),
        ext_signal := (if type e = Some ABT_UNIT_TYPE_THREAD then ext_signal w else (ext_signal w)(t := 1)),
        trace := trace w @ [wake_event (type e, t)]\<rparr>"
  define w2 where "w2 = w1\<lparr>entries := fmdrop a (entries w1)\<rparr>"
  have step: "broadcast_loop p w = broadcast_loop (next e) w2"
    by (simp add: e wake_live [OF t] w1_def w2_def)
  from Cons.prems(2) have same: "\<And>b. b \<in> set as \<Longrightarrow> fmlookup (entries w2) b = fmlookup (entries w) b"
    by (auto simp: w2_def w1_def)
  have p2: "path (entries w2) (next e) as"
    using e(3) path_cong [OF same] by simp
  have q2: "queue (entries w2) as = queue (entries w) as"
    using same by (rule queue_cong)
  from Cons.IH [OF p2] Cons.prems(2) full q2
  obtain w' where w': "broadcast_loop (next e) w2 = Some w'" "conds w' = conds w2"
    "entries w' = fmdrop_set (set as) (entries w2)"
    "trace w' = trace w2 @ map wake_event (queue (entries w) as)"
    "\<forall>x\<in>set (queue (entries w) as). woken w' x" "\<forall>x. woken w2 x \<longrightarrow> woken w' x"
    by auto
  have wk: "woken w2 (type e, t)" and mono: "\<And>x. woken w x \<Longrightarrow> woken w2 x"
    by (rule woken_wake [of w2 "type e" w t]; simp add: w2_def w1_def)+
  have c: "conds w' = conds w"
    by (simp add: w'(2) w2_def w1_def)
  have en: "entries w' = fmdrop_set (set (a # as)) (entries w)"
    by (simp add: w'(3) w2_def w1_def)
  have tr: "trace w' = trace w @ map wake_event (queue (entries w) (a # as))"
    unfolding q by (simp add: w'(4) w2_def w1_def)
  have all: "\<forall>x\<in>set (queue (entries w) (a # as)). woken w' x"
    unfolding q using w'(5,6) wk by auto
  have keep: "\<forall>x. woken w x \<longrightarrow> woken w' x"
    using w'(6) mono by blast
  from w'(1) c en tr all keep show ?case
    unfolding step by blast
qed


lemma broadcast_empty:
  assumes "fmlookup (conds w) p = Some c" "num_waiters c = 0"
  shows "ABT_cond_broadcast (Some p) w =
     Return ABT_SUCCESS (w\<lparr>trace := trace w @ [MUTEX_LOCK (mutex c), MUTEX_UNLOCK (mutex c)]\<rparr>)"
  using assms by (simp add: ABT_cond_broadcast_def Let_def log_def)

lemma broadcast_all:
  assumes "cv_inv w p as" "fmlookup (conds w) p = Some c" "num_waiters c \<noteq> 0"
  shows "\<exists>w' e. ABT_cond_broadcast (Some p) w = Return ABT_SUCCESS w' \<and>
     fmlookup (entries w) (hd as) = Some e \<and>
     conds w' = fmupd p (c\<lparr>waiters_tail := Some (hd as), num_waiters := 0,
                           waiter_mutex := ABT_MUTEX_NULL\<rparr>) (conds w) \<and>
     entries w' = fmupd (hd as) (e\<lparr>current := None, next := None\<rparr>)
                    (fmdrop_set (set (tl as)) (entries w)) \<and>
     trace w' = trace w @ MUTEX_LOCK (mutex c) # map wake_event (queue (entries w) as) @
                  [MUTEX_UNLOCK (mutex c)] \<and>
     (\<forall>x\<in>set (queue (entries w) as). woken w' x)"
  using assms
proof (rule cv_inv_nonempty, goal_cases)
  case (1 h bs e t)
  define w1 where "w1 = log (MUTEX_LOCK (mutex c)) w"
  define w2 where "w2 = w1\<lparr>thread_state := (if type e = Some ABT_UNIT_TYPE_THREAD then (thread_state w1)(t := READY) else thread_state w1),
        ext_signal := (if type e = Some ABT_UNIT_TYPE_THREAD then ext_signal w1 else (ext_signal w1)(t := 1)),
        trace := trace w1 @ [wake_event (type e, t)]\<rparr>"
  define w3 where "w3 = w2\<lparr>entries := fmupd h (e\<lparr>current := None\<rparr>) (entries w2)\<rparr>"
  have wk: "wake e w1 = Some w2"
    unfolding w2_def by (rule wake_live) (rule 1)
  have en3: "entries w3 = fmupd h (e\<lparr>current := None\<rparr>) (entries w)"
    by (simp add: w3_def w2_def w1_def log_def)
  from 1(8) have same: "\<And>b. b \<in> set bs \<Longrightarrow> fmlookup (entries w3) b = fmlookup (entries w) b"
    by (auto simp: en3)
  have p3: "path (entries w3) (next e) bs"
    using 1(7) path_cong [OF same] by simp
  have q3: "queue (entries w3) bs = queue (entries w) bs"
    using same by (rule queue_cong)
  from 1(1,3,10) have full: "length (queue (entries w) bs) = length bs"
    by simp
  from broadcast_loop_path [OF p3 1(9)] full q3
  obtain w4 where w4: "broadcast_loop (next e) w3 = Some w4" "conds w4 = conds w3"
    "entries w4 = fmdrop_set (set bs) (entries w3)"
    "trace w4 = trace w3 @ map wake_event (queue (entries w) bs)"
    "\<forall>x\<in>set (queue (entries w) bs). woken w4 x" "\<forall>x. woken w3 x \<longrightarrow> woken w4 x"
    by auto
  from 1(8) have h4: "fmlookup (entries w4) h = Some (e\<lparr>current := None\<rparr>)"
    by (simp add: w4(3) en3)
  define w' where "w' = log (MUTEX_UNLOCK (mutex c))
     (w4\<lparr>entries := fmupd h (e\<lparr>current := None, next := None\<rparr>) (entries w4),
         conds := fmupd p (c\<lparr>waiters_tail := Some h, num_waiters := 0,
                             waiter_mutex := ABT_MUTEX_NULL\<rparr>) (conds w4)\<rparr>)"
  have e1: "fmlookup (entries w1) h = Some e"
    by (simp add: w1_def log_def 1)
  have res: "ABT_cond_broadcast (Some p) w = Return ABT_SUCCESS w'"
    unfolding ABT_cond_broadcast_def Let_def
    using \<open>fmlookup (conds w) p = Some c\<close> \<open>num_waiters c \<noteq> 0\<close> \<open>waiters_head c = Some h\<close>
    by (simp add: e1 [unfolded w1_def] wk [unfolded w1_def]
          w4(1) [unfolded w3_def w1_def] h4 w'_def)
  have c': "conds w' = fmupd p (c\<lparr>waiters_tail := Some h, num_waiters := 0,
                           waiter_mutex := ABT_MUTEX_NULL\<rparr>) (conds w)"
    by (simp add: w'_def log_def w4(2) w3_def w2_def w1_def)
  have "fmupd h (e\<lparr>current := None, next := None\<rparr>) (fmdrop_set (set bs) (fmupd h (e\<lparr>current := None\<rparr>) (entries w)))
      = fmupd h (e\<lparr>current := None, next := None\<rparr>) (fmdrop_set (set bs) (entries w))"
    by (rule fmap_ext) simp
  then have en': "entries w' = fmupd h (e\<lparr>current := None, next := None\<rparr>) (fmdrop_set (set bs) (entries w))"
    by (simp add: w'_def log_def w4(3) en3)
  have tr': "trace w' = trace w @ MUTEX_LOCK (mutex c) # map wake_event (queue (entries w) as) @
                  [MUTEX_UNLOCK (mutex c)]"
    by (simp add: w'_def log_def w4(4) w3_def w2_def w1_def 1(10))
  have "woken w3 (type e, t)"
    by (rule woken_wake(1) [of w3 "type e" w1 t]) (simp_all add: w3_def w2_def)
  with w4(6) have "woken w4 (type e, t)" by blast
  with w4(5) have "\<forall>x\<in>set (queue (entries w) as). woken w4 x"
    by (simp add: 1(10))
  moreover have "woken w' x = woken w4 x" for x
    by (cases x) (simp add: w'_def log_def)
  ultimately have all': "\<forall>x\<in>set (queue (entries w) as). woken w' x"
    by simp
  from res c' en' tr' all' 1(1,5) show ?case
    by auto
qed

section \<open>Well-formed worlds\<close>

lemma cv_inv_broadcast:
  assumes "fmlookup (conds w) p = Some c"
    and "conds w' = fmupd p (c\<lparr>waiters_tail := Some h, num_waiters := 0,
                           waiter_mutex := ABT_MUTEX_NULL\<rparr>) (conds w)"
    and "entries w' = fmupd h (e\<lparr>current := None, next := None\<rparr>) es"
    and "waiters_head c = Some h"
  shows "cv_inv w' p [h] \<and> queue (entries w') [h] = []"
  using assms by (simp add: cv_inv_def)

lemma cv_inv_create:
  assumes "conds w' = fmupd p
             \<lparr>mutex = g, waiter_mutex = ABT_MUTEX_NULL, num_waiters = 0,
              waiters_head = Some h, waiters_tail = Some h\<rparr> cs"
    and "entries w' = fmupd h \<lparr>current = None, next = None, type = None\<rparr> es"
  shows "cv_inv w' p [h]"
  using assms by (simp add: cv_inv_def)

lemma world_inv_same:
  assumes "world_inv w ns" "conds w' = conds w" "entries w' = entries w"
  shows "world_inv w' ns"
proof -
  have "cv_inv w' p as = cv_inv w p as" for p as
    by (rule cv_inv_cong) (simp_all add: assms(2,3))
  with assms show ?thesis
    by (simp add: world_inv_def)
qed

lemma world_inv_update:
  assumes inv: "world_inv w ns"
    and c: "conds w' = fmupd p c' (conds w)"
    and p: "cv_inv w' p as'"
    and sub: "set as' \<subseteq> M"
    and frame: "\<And>a. a \<notin> M \<Longrightarrow> fmlookup (entries w') a = fmlookup (entries w) a"
    and sep: "\<And>q. q \<in> fmdom' (conds w) \<Longrightarrow> q \<noteq> p \<Longrightarrow> set (ns q) \<inter> M = {}"
  shows "world_inv w' (ns(p := as'))"
  unfolding world_inv_def
proof (intro conjI allI impI)
  fix q
  assume q: "q \<in> fmdom' (conds w')"
  show "cv_inv w' q ((ns(p := as')) q)"
  proof (cases "q = p")
    case True
    with p show ?thesis by simp
  next
    case False
    with q c have qd: "q \<in> fmdom' (conds w)" by simp
    with inv have "cv_inv w q (ns q)" by (simp add: world_inv_def)
    moreover have "cv_inv w' q (ns q) = cv_inv w q (ns q)"
    proof (rule cv_inv_cong)
      show "fmlookup (conds w') q = fmlookup (conds w) q"
        using False by (simp add: c)
    next
      fix a assume "a \<in> set (ns q)"
      with sep [OF qd False] have "a \<notin> M" by auto
      then show "fmlookup (entries w') a = fmlookup (entries w) a" by (rule frame)
    qed
    ultimately show ?thesis using False by simp
  qed
next
  fix q r
  assume q: "q \<in> fmdom' (conds w')" and r: "r \<in> fmdom' (conds w')" and ne: "q \<noteq> r"
  show "set ((ns(p := as')) q) \<inter> set ((ns(p := as')) r) = {}"
  proof (cases "q = p")
    case True
    with ne r c have "r \<in> fmdom' (conds w)" "r \<noteq> p" by auto
    from sep [OF this] sub True ne show ?thesis by auto
  next
    case qp: False
    with q c have qd: "q \<in> fmdom' (conds w)" by simp
    show ?thesis
    proof (cases "r = p")
      case True
      from sep [OF qd qp] sub True qp show ?thesis by auto
    next
      case False
      with r c have "r \<in> fmdom' (conds w)" by simp
      with inv qd ne qp False show ?thesis by (simp add: world_inv_def)
    qed
  qed
qed

lemma world_inv_nodes:
  assumes "world_inv w ns" "fmlookup (conds w) p = Some c"
  shows "cv_inv w p (ns p)"
  using assms by (auto simp: world_inv_def intro: fmdom'I)

lemma world_inv_sep:
  assumes "world_inv w ns" "fmlookup (conds w) p = Some c" "q \<in> fmdom' (conds w)" "q \<noteq> p"
  shows "set (ns q) \<inter> set (ns p) = {}"
proof -
  from assms(2) have "p \<in> fmdom' (conds w)" by (rule fmdom'I)
  with assms(1,3,4) show ?thesis
    unfolding world_inv_def by blast
qed

lemma world_inv_fresh:
  assumes "world_inv w ns" "q \<in> fmdom' (conds w)" "fmlookup (entries w) a = None"
  shows "a \<notin> set (ns q)"
proof
  assume "a \<in> set (ns q)"
  moreover from assms(1,2) have "cv_inv w q (ns q)" by (simp add: world_inv_def)
  ultimately have "\<exists>e. fmlookup (entries w) a = Some e" by (rule cv_inv_allocated [rotated])
  with assms(3) show False by simp
qed

lemma wait_cases [consumes 3, case_names unchanged enq_first enq_next]:
  assumes "world_inv w ns" "malloc_ok (Wait lp px me cond m) w"
    and "exec (Wait lp px me cond m) w = Some w'"
  obtains (unchanged) "conds w' = conds w" "entries w' = entries w"
  | (enq_first) p c t ty h e where "cond = Some p" "fmlookup (conds w) p = Some c"
      "caller_kind lp px = Some (t, ty)" "waiter_mutex c = None \<or> waiter_mutex c = m"
      "num_waiters c = 0" "waiters_head c = Some h" "fmlookup (entries w) h = Some e"
      "ABT_cond_wait lp px me cond m w = Suspend w'"
      "conds w' = fmupd p (c\<lparr>waiter_mutex := m, num_waiters := 1\<rparr>) (conds w)"
      "entries w' = fmupd h (e\<lparr>current := Some t, type := Some ty\<rparr>) (entries w)"
  | (enq_next) p c t ty a tn e where "cond = Some p" "fmlookup (conds w) p = Some c"
      "caller_kind lp px = Some (t, ty)" "waiter_mutex c = None \<or> waiter_mutex c = m"
      "num_waiters c \<noteq> 0" "me = Some a" "fmlookup (entries w) a = None"
      "waiters_tail c = Some tn" "fmlookup (entries w) tn = Some e"
      "ABT_cond_wait lp px me cond m w = Suspend w'"
      "conds w' = fmupd p (c\<lparr>waiter_mutex := m, waiters_tail := Some a,
            num_waiters := num_waiters c + 1\<rparr>) (conds w)"
      "entries w' = fmupd a \<lparr>current = Some t, next = None, type = Some ty\<rparr>
            (fmupd tn (e\<lparr>next := Some a\<rparr>) (entries w))"
proof (cases cond)
  case None
  with assms(3) have "w' = w" by (simp add: wait_defs)
  then show thesis by (intro unchanged) simp_all
next
  case (Some p)
  show thesis
  proof (cases "caller_kind lp px")
    case None
    with assms(3) Some have "w' = w\<lparr>ext_signal := (ext_signal w)(px := 0)\<rparr>"
      by (simp add: wait_no_ult)
    then show thesis by (intro unchanged) simp_all
  next
    case kind: (Some tty)
    obtain t ty where tty: "tty = (t, ty)" by (cases tty)
    note kind = kind [unfolded tty]
    show thesis
    proof (cases "fmlookup (conds w) p")
      case None
      with assms(3) Some kind show thesis
        by (simp add: wait_defs)
    next
      case c: (Some c)
      note inv = world_inv_nodes [OF assms(1) c]
      show thesis
      proof (cases "waiter_mutex c = None \<or> waiter_mutex c = m")
        case False
        with assms(3) Some have "w' = w\<lparr>ext_signal := (ext_signal w)(px := 0),
            trace := trace w @ [MUTEX_SPINLOCK (mutex c), MUTEX_UNLOCK (mutex c)]\<rparr>"
          by (simp add: wait_mismatch [OF c kind])
        then show thesis by (intro unchanged) simp_all
      next
        case ok: True
        show thesis
        proof (cases "num_waiters c = 0")
          case True
          from inv c True show thesis
          proof (rule cv_inv_empty, goal_cases)
            case (1 h e)
            note w = wait_first [OF c kind ok True 1(2,4), of me]
            with assms(3) Some show ?case
              by (intro enq_first [OF Some c kind ok True 1(2,4)]) auto
          qed
        next
          case False
          show thesis
          proof (cases me)
            case None
            with assms(3) Some wait_abort [OF c kind ok False] show thesis
              by simp
          next
            case a: (Some a)
            with assms(2) have fresh: "fmlookup (entries w) a = None" by simp
            from cv_invD [OF inv c] have tn: "waiters_tail c = Some (last (ns p))"
              and "last (ns p) \<in> set (ns p)"
              by auto
            with cv_inv_allocated [OF inv] obtain e where
              e: "fmlookup (entries w) (last (ns p)) = Some e"
              by blast
            with fresh have ne: "last (ns p) \<noteq> a" by auto
            note w = wait_next [OF c kind ok False tn e ne]
            with assms(3) Some a show thesis
              by (intro enq_next [OF Some c kind ok False a fresh tn e]) auto
          qed
        qed
      qed
    qed
  qed
qed


lemma signal_cases [consumes 2, case_names unchanged deq_last deq_more]:
  assumes "world_inv w ns" "exec (Signal cond) w = Some w'"
  obtains (unchanged) "conds w' = conds w" "entries w' = entries w"
  | (deq_last) p c h e t where "cond = Some p" "fmlookup (conds w) p = Some c"
      "num_waiters c = 1" "waiters_head c = Some h" "fmlookup (entries w) h = Some e"
      "current e = Some t"
      "conds w' = fmupd p (c\<lparr>waiter_mutex := None, num_waiters := 0\<rparr>) (conds w)"
      "entries w' = fmupd h (e\<lparr>current := None\<rparr>) (entries w)"
  | (deq_more) p c h e t where "cond = Some p" "fmlookup (conds w) p = Some c"
      "num_waiters c > 1" "waiters_head c = Some h" "fmlookup (entries w) h = Some e"
      "current e = Some t"
      "conds w' = fmupd p (c\<lparr>waiters_head := next e, num_waiters := num_waiters c - 1\<rparr>) (conds w)"
      "entries w' = fmdrop h (entries w)"
proof (cases cond)
  case None
  with assms(2) have "w' = w" by (simp add: ABT_cond_signal_def)
  then show thesis by (intro unchanged) simp_all
next
  case (Some p)
  show thesis
  proof (cases "fmlookup (conds w) p")
    case None
    with assms(2) Some show thesis
      by (simp add: ABT_cond_signal_def)
  next
    case c: (Some c)
    note inv = world_inv_nodes [OF assms(1) c]
    show thesis
    proof (cases "num_waiters c = 0")
      case True
      with assms(2) Some signal_empty [OF c True] show thesis
        by (intro unchanged) auto
    next
      case False
      from inv c False show thesis
      proof (rule cv_inv_nonempty, goal_cases)
        case (1 h bs e t)
        show ?case
        proof (cases "num_waiters c = 1")
          case True
          from assms(2) Some signal_last [OF c True 1(4,5,6)] show ?thesis
            by (intro deq_last [OF Some c True 1(4,5,6)]) auto
        next
          case f: False
          with False have more: "num_waiters c > 1" by simp
          from assms(2) Some signal_more [OF c more 1(4,5,6)] show ?thesis
            by (intro deq_more [OF Some c more 1(4,5,6)]) auto
        qed
      qed
    qed
  qed
qed

lemma broadcast_cases [consumes 2, case_names unchanged wake_all]:
  assumes "world_inv w ns" "exec (Broadcast cond) w = Some w'"
  obtains (unchanged) "conds w' = conds w" "entries w' = entries w"
  | (wake_all) p c h e where "cond = Some p" "fmlookup (conds w) p = Some c"
      "num_waiters c \<noteq> 0" "waiters_head c = Some h" "h = hd (ns p)"
      "fmlookup (entries w) h = Some e"
      "conds w' = fmupd p (c\<lparr>waiters_tail := Some h, num_waiters := 0,
                             waiter_mutex := ABT_MUTEX_NULL\<rparr>) (conds w)"
      "entries w' = fmupd h (e\<lparr>current := None, next := None\<rparr>)
                      (fmdrop_set (set (tl (ns p))) (entries w))"
proof (cases cond)
  case None
  with assms(2) have "w' = w" by (simp add: ABT_cond_broadcast_def)
  then show thesis by (intro unchanged) simp_all
next
  case (Some p)
  show thesis
  proof (cases "fmlookup (conds w) p")
    case None
    with assms(2) Some show thesis
      by (simp add: ABT_cond_broadcast_def)
  next
    case c: (Some c)
    note inv = world_inv_nodes [OF assms(1) c]
    show thesis
    proof (cases "num_waiters c = 0")
      case True
      with assms(2) Some broadcast_empty [OF c True] show thesis
        by (intro unchanged) auto
    next
      case False
      from broadcast_all [OF inv c False] obtain w1 e where
        w1: "ABT_cond_broadcast (Some p) w = Return ABT_SUCCESS w1"
        "fmlookup (entries w) (hd (ns p)) = Some e"
        "conds w1 = fmupd p (c\<lparr>waiters_tail := Some (hd (ns p)), num_waiters := 0,
                           waiter_mutex := ABT_MUTEX_NULL\<rparr>) (conds w)"
        "entries w1 = fmupd (hd (ns p)) (e\<lparr>current := None, next := None\<rparr>)
                    (fmdrop_set (set (tl (ns p))) (entries w))"
        by blast
      with assms(2) Some have "w1 = w'" by simp
      with w1 cv_invD(7) [OF inv c] show thesis
        by (intro wake_all [OF Some c False, of "hd (ns p)" e]) auto
    qed
  qed
qed

lemma create_cases [consumes 2, case_names unchanged created]:
  assumes "malloc_ok (Create m_cond mc m_entry nc) w"
    and "exec (Create m_cond mc m_entry nc) w = Some w'"
  obtains (unchanged) "conds w' = conds w" "entries w' = entries w"
  | (created) p h where "m_cond = Some p" "m_entry = Some h"
      "fmlookup (conds w) p = None" "fmlookup (entries w) h = None"
      "conds w' = fmupd p
             \<lparr>mutex = snd mc, waiter_mutex = ABT_MUTEX_NULL, num_waiters = 0,
              waiters_head = Some h, waiters_tail = Some h\<rparr> (conds w)"
      "entries w' = fmupd h \<lparr>current = None, next = None, type = None\<rparr> (entries w)"
proof (cases m_cond)
  case None
  with assms(2) have "w' = w" by (simp add: ABT_cond_create_def)
  then show thesis by (intro unchanged) simp_all
next
  case p: (Some p)
  show thesis
  proof (cases "fst mc = ABT_SUCCESS")
    case False
    with assms(2) p have "w' = w" by (simp add: ABT_cond_create_def)
    then show thesis by (intro unchanged) simp_all
  next
    case True
    show thesis
    proof (cases m_entry)
      case None
      with assms(2) p True show thesis by (simp add: ABT_cond_create_def)
    next
      case h: (Some h)
      from assms(1) p h have "fmlookup (conds w) p = None" "fmlookup (entries w) h = None"
        by simp_all
      moreover from assms(2) p h True
      have "w' = w\<lparr>entries := fmupd h \<lparr>current = None, next = None, type = None\<rparr> (entries w),
                    conds := fmupd p
                      \<lparr>mutex = snd mc, waiter_mutex = ABT_MUTEX_NULL, num_waiters = 0,
                       waiters_head = Some h, waiters_tail = Some h\<rparr> (conds w)\<rparr>"
        by (simp add: ABT_cond_create_def)
      ultimately show thesis
        by (intro created [OF p h]) simp_all
    qed
  qed
qed

lemma world_inv_exec:
  assumes "world_inv w ns" "malloc_ok cl w" "exec cl w = Some w'"
  shows "\<exists>ns'. world_inv w' ns'"
proof (cases cl)
  case (Create m_cond mc m_entry nc)
  from assms(2,3) [unfolded Create] show ?thesis
  proof (cases rule: create_cases)
    case unchanged
    with assms(1) show ?thesis by (blast intro: world_inv_same)
  next
    case (created p h)
    have "world_inv w' (ns(p := [h]))"
    proof (rule world_inv_update [OF assms(1) created(5), where M = "{h}"])
      show "cv_inv w' p [h]" using created(5,6) by (rule cv_inv_create)
    next
      fix q assume "q \<in> fmdom' (conds w)" "q \<noteq> p"
      with world_inv_fresh [OF assms(1) _ created(4)] show "set (ns q) \<inter> {h} = {}" by auto
    qed (simp_all add: created(6))
    then show ?thesis by blast
  qed
next
  case (Wait lp px me cond m)
  from assms [unfolded Wait] show ?thesis
  proof (cases rule: wait_cases)
    case unchanged
    with assms(1) show ?thesis by (blast intro: world_inv_same)
  next
    case (enq_first p c t ty h e)
    note inv = world_inv_nodes [OF assms(1) enq_first(2)]
    have "world_inv w' (ns(p := ns p))"
    proof (rule world_inv_update [OF assms(1) enq_first(9), where M = "set (ns p)"])
      show "cv_inv w' p (ns p)"
        using cv_inv_wait_first [OF inv enq_first(2,5,6,7,9,10)] by simp
    next
      fix q assume "q \<in> fmdom' (conds w)" "q \<noteq> p"
      then show "set (ns q) \<inter> set (ns p) = {}"
        by (rule world_inv_sep [OF assms(1) enq_first(2)])
    next
      fix a assume "a \<notin> set (ns p)"
      moreover from cv_invD(3,7) [OF inv enq_first(2)] enq_first(6) have "h \<in> set (ns p)"
        by auto
      ultimately show "fmlookup (entries w') a = fmlookup (entries w) a"
        by (auto simp: enq_first(10))
    qed simp
    then show ?thesis by blast
  next
    case (enq_next p c t ty a tn e)
    note inv = world_inv_nodes [OF assms(1) enq_next(2)]
    have "world_inv w' (ns(p := ns p @ [a]))"
    proof (rule world_inv_update [OF assms(1) enq_next(11), where M = "set (ns p) \<union> {a}"])
      show "cv_inv w' p (ns p @ [a])"
        using cv_inv_wait_next [OF inv enq_next(2,5,7,8,9,11,12)] by simp
    next
      fix q assume q: "q \<in> fmdom' (conds w)" "q \<noteq> p"
      with world_inv_sep [OF assms(1) enq_next(2) q] world_inv_fresh [OF assms(1) q(1) enq_next(7)]
      show "set (ns q) \<inter> (set (ns p) \<union> {a}) = {}" by auto
    next
      fix b assume "b \<notin> set (ns p) \<union> {a}"
      moreover from cv_invD(3,4) [OF inv enq_next(2)] enq_next(8) have "tn \<in> set (ns p)"
        by auto
      ultimately show "fmlookup (entries w') b = fmlookup (entries w) b"
        by (auto simp: enq_next(12))
    qed simp
    then show ?thesis by blast
  qed
next
  case (Signal cond)
  from assms(1,3) [unfolded Signal] show ?thesis
  proof (cases rule: signal_cases)
    case unchanged
    with assms(1) show ?thesis by (blast intro: world_inv_same)
  next
    case (deq_last p c h e t)
    note inv = world_inv_nodes [OF assms(1) deq_last(2)]
    have "world_inv w' (ns(p := ns p))"
    proof (rule world_inv_update [OF assms(1) deq_last(7), where M = "set (ns p)"])
      show "cv_inv w' p (ns p)"
        using cv_inv_signal_last [OF inv deq_last(2,3,4,5,7,8)] by simp
    next
      fix q assume "q \<in> fmdom' (conds w)" "q \<noteq> p"
      then show "set (ns q) \<inter> set (ns p) = {}"
        by (rule world_inv_sep [OF assms(1) deq_last(2)])
    next
      fix a assume "a \<notin> set (ns p)"
      moreover from cv_invD(3,7) [OF inv deq_last(2)] deq_last(4) have "h \<in> set (ns p)"
        by auto
      ultimately show "fmlookup (entries w') a = fmlookup (entries w) a"
        by (auto simp: deq_last(8))
    qed simp
    then show ?thesis by blast
  next
    case (deq_more p c h e t)
    note inv = world_inv_nodes [OF assms(1) deq_more(2)]
    from cv_invD(3,7) [OF inv deq_more(2)] deq_more(4) have h: "h \<in> set (ns p)"
      by auto
    have "world_inv w' (ns(p := tl (ns p)))"
    proof (rule world_inv_update [OF assms(1) deq_more(7), where M = "set (ns p)"])
      show "cv_inv w' p (tl (ns p))"
        using cv_inv_signal_more [OF inv deq_more(2,3,4,5,7,8)] by simp
    next
      fix q assume "q \<in> fmdom' (conds w)" "q \<noteq> p"
      then show "set (ns q) \<inter> set (ns p) = {}"
        by (rule world_inv_sep [OF assms(1) deq_more(2)])
    next
      fix a assume "a \<notin> set (ns p)"
      with h show "fmlookup (entries w') a = fmlookup (entries w) a"
        by (auto simp: deq_more(8))
    next
      show "set (tl (ns p)) \<subseteq> set (ns p)"
        by (cases "ns p") auto
    qed
    then show ?thesis by blast
  qed
next
  case (Broadcast cond)
  from assms(1,3) [unfolded Broadcast] show ?thesis
  proof (cases rule: broadcast_cases)
    case unchanged
    with assms(1) show ?thesis by (blast intro: world_inv_same)
  next
    case (wake_all p c h e)
    note inv = world_inv_nodes [OF assms(1) wake_all(2)]
    from cv_invD(3) [OF inv wake_all(2)] wake_all(5) have h: "h \<in> set (ns p)"
      by auto
    have "world_inv w' (ns(p := [h]))"
    proof (rule world_inv_update [OF assms(1) wake_all(7), where M = "set (ns p)"])
      show "cv_inv w' p [h]"
        using cv_inv_broadcast [OF wake_all(2,7,8,4)] by simp
    next
      fix q assume "q \<in> fmdom' (conds w)" "q \<noteq> p"
      then show "set (ns q) \<inter> set (ns p) = {}"
        by (rule world_inv_sep [OF assms(1) wake_all(2)])
    next
      fix a assume "a \<notin> set (ns p)"
      moreover have "set (tl (ns p)) \<subseteq> set (ns p)" by (cases "ns p") auto
      ultimately show "fmlookup (entries w') a = fmlookup (entries w) a"
        using h by (auto simp: wake_all(8))
    next
      from h show "set [h] \<subseteq> set (ns p)" by simp
    qed
    then show ?thesis by blast
  qed
qed

lemma world_inv_run:
  assumes "run cls w = Some w'" "world_inv w ns"
  shows "\<exists>ns'. world_inv w' ns'"
  using assms
proof (induction cls arbitrary: w ns)
  case Nil
  then show ?case by auto
next
  case (Cons cl cls)
  from Cons.prems(1) obtain w1 where w1: "malloc_ok cl w" "exec cl w = Some w1" "run cls w1 = Some w'"
    by (auto split: if_splits option.splits)
  from world_inv_exec [OF Cons.prems(2) w1(1,2)] obtain ns1 where "world_inv w1 ns1" ..
  with Cons.IH [OF w1(3)] show ?case .
qed

lemma world_inv_init: "conds w = fmempty \<Longrightarrow> world_inv w ns"
  by (simp add: world_inv_def)

text \<open>Every condition variable that a run has created and worked on is well formed.\<close>

lemma run_cv_inv:
  assumes "conds w0 = fmempty" "run cls w0 = Some w" "fmlookup (conds w) p = Some c"
  shows "\<exists>as. cv_inv w p as"
proof -
  from assms(1) have "world_inv w0 (\<lambda>p. [])" by (rule world_inv_init)
  with assms(2) obtain ns where "world_inv w ns" by (blast dest: world_inv_run)
  then have "cv_inv w p (ns p)" using assms(3) by (rule world_inv_nodes)
  then show ?thesis ..
qed

section \<open>The examples\<close>

lemma ex1: "ABT_cond_create (Some 100) (ABT_SUCCESS, Some 9) (Some 10) ABT_COND_NULL world0 =
         Return (ABT_SUCCESS, Some 100) world1"
  by (simp add: ABT_cond_create_def world1_def world0_def)

lemma ex2: "ABT_cond_wait (Some \<lparr>p_thread = Some 40\<rparr>) 5 None (Some 100) (Some 7) world1 = Suspend world2"
  by (simp add: wait_defs caller_kind_def Let_def log_def world2_def world1_def world0_def)

lemma ex3: "ABT_cond_wait None 6 (Some 11) (Some 100) (Some 7) world2 = Suspend world3"
  by (simp add: wait_defs caller_kind_def Let_def log_def world3_def world2_def world1_def world0_def
     fmupd_reorder_neq numeral_2_eq_2)

lemma ex_run: "run [Create (Some 100) (ABT_SUCCESS, Some 9) (Some 10) ABT_COND_NULL,
           Wait (Some \<lparr>p_thread = Some 40\<rparr>) 5 None (Some 100) (Some 7),
           Wait None 6 (Some 11) (Some 100) (Some 7)] world0 = Some world3"
proof -
  have "malloc_ok (Create (Some 100) (ABT_SUCCESS, Some 9) (Some 10) ABT_COND_NULL) world0"
    by (simp add: world0_def)
  moreover have "malloc_ok (Wait None 6 (Some 11) (Some 100) (Some 7)) world2"
    by (simp add: world2_def world1_def world0_def)
  ultimately show ?thesis
    by (simp add: ex1 ex2 ex3)
qed

lemma inv1: "cv_inv world1 100 [10]"
  by (simp add: cv_inv_def world1_def world0_def)
lemma inv2: "cv_inv world2 100 [10]"
  by (simp add: cv_inv_def world2_def world1_def world0_def)
lemma inv3: "cv_inv world3 100 [10, 11]"
  by (simp add: cv_inv_def world3_def world2_def world1_def world0_def numeral_2_eq_2)

lemma ex4: "ABT_cond_signal (Some 100) world2 = Return ABT_SUCCESS world4"
  by (simp add: ABT_cond_signal_def wake_def Let_def log_def world4_def world2_def world1_def
      world0_def)

lemma ex_run2:
  "run [Create (Some 100) (ABT_SUCCESS, Some 9) (Some 10) ABT_COND_NULL,
        Wait (Some \<lparr>p_thread = Some 40\<rparr>) 5 None (Some 100) (Some 7)] world0 = Some world2"
proof -
  have "malloc_ok (Create (Some 100) (ABT_SUCCESS, Some 9) (Some 10) ABT_COND_NULL) world0"
    by (simp add: world0_def)
  then show ?thesis
    by (simp add: ex1 ex2)
qed

section \<open>Effects of single calls\<close>

lemma wait_enqueues:
  assumes "cv_inv w p as" "fmlookup (conds w) p = Some c" "caller_kind lp px = Some (t, ty)"
    and "waiter_mutex c = None \<or> waiter_mutex c = m"
    and "num_waiters c \<noteq> 0 \<longrightarrow> (\<exists>a. me = Some a \<and> fmlookup (entries w) a = None)"
  shows "\<exists>w' as' c'. ABT_cond_wait lp px me (Some p) m w = Suspend w' \<and>
           cv_inv w' p as' \<and> fmlookup (conds w') p = Some c' \<and>
           queue (entries w') as' = queue (entries w) as @ [(Some ty, t)] \<and>
           num_waiters c' = num_waiters c + 1 \<and> waiter_mutex c' = m \<and> mutex c' = mutex c \<and>
           ext_signal w' = (ext_signal w)(px := 0) \<and>
           trace w' = trace w @ [MUTEX_SPINLOCK (mutex c)] @
             (if ty = ABT_UNIT_TYPE_THREAD then [THREAD_SET_BLOCKED t] else []) @
             [MUTEX_UNLOCK (mutex c), MUTEX_UNLOCK m]"
proof (cases "num_waiters c = 0")
  case True
  from assms(1,2) True show ?thesis
  proof (rule cv_inv_empty, goal_cases)
    case (1 h e)
    let ?w = "\<lparr>conds = fmupd p (c\<lparr>waiter_mutex := m, num_waiters := 1\<rparr>) (conds w),
      entries = fmupd h (e\<lparr>current := Some t, type := Some ty\<rparr>) (entries w),
      thread_state = (if ty = ABT_UNIT_TYPE_THREAD then (thread_state w)(t := BLOCKED) else thread_state w),
      ext_signal = (ext_signal w)(px := 0),
      trace = trace w @ [MUTEX_SPINLOCK (mutex c)] @ (if ty = ABT_UNIT_TYPE_THREAD then [THREAD_SET_BLOCKED t] else [])
           @ [MUTEX_UNLOCK (mutex c), MUTEX_UNLOCK m]\<rparr>"
    have "ABT_cond_wait lp px me (Some p) m w = Suspend ?w"
      by (rule wait_first [OF assms(2,3,4) True 1(2,4)])
    moreover have "cv_inv ?w p as \<and> queue (entries ?w) as = queue (entries w) as @ [(Some ty, t)]"
      by (rule cv_inv_wait_first [OF assms(1,2) True 1(2,4)]) simp_all
    ultimately show ?case using True
      by (intro exI [of _ ?w] exI [of _ as] exI [of _ "c\<lparr>waiter_mutex := m, num_waiters := 1\<rparr>"]) simp
  qed
next
  case False
  with assms(5) obtain a where a: "me = Some a" "fmlookup (entries w) a = None"
    by blast
  from cv_invD [OF assms(1,2)] have tn: "waiters_tail c = Some (last as)"
    and "last as \<in> set as"
    by auto
  with cv_inv_allocated [OF assms(1)] obtain e where e: "fmlookup (entries w) (last as) = Some e"
    by blast
  with a have ne: "last as \<noteq> a" by auto
  let ?c = "c\<lparr>waiter_mutex := m, waiters_tail := Some a, num_waiters := num_waiters c + 1\<rparr>"
  let ?w = "\<lparr>conds = fmupd p ?c (conds w),
      entries = fmupd a \<lparr>current = Some t, next = None, type = Some ty\<rparr> (fmupd (last as) (e\<lparr>next := Some a\<rparr>) (entries w)),
      thread_state = (if ty = ABT_UNIT_TYPE_THREAD then (thread_state w)(t := BLOCKED) else thread_state w),
      ext_signal = (ext_signal w)(px := 0),
      trace = trace w @ [MUTEX_SPINLOCK (mutex c)] @ (if ty = ABT_UNIT_TYPE_THREAD then [THREAD_SET_BLOCKED t] else [])
           @ [MUTEX_UNLOCK (mutex c), MUTEX_UNLOCK m]\<rparr>"
  have "ABT_cond_wait lp px me (Some p) m w = Suspend ?w"
    unfolding a by (rule wait_next [OF assms(2,3,4) False tn e ne])
  moreover have "cv_inv ?w p (as @ [a]) \<and>
      queue (entries ?w) (as @ [a]) = queue (entries w) as @ [(Some ty, t)]"
    by (rule cv_inv_wait_next [OF assms(1,2) False a(2) tn e]) simp_all
  ultimately show ?thesis
    by (intro exI [of _ ?w] exI [of _ "as @ [a]"] exI [of _ ?c]) simp
qed

lemma signal_dequeues:
  assumes "cv_inv w p as" "fmlookup (conds w) p = Some c" "num_waiters c \<noteq> 0"
  shows "\<exists>w' as' c' x. ABT_cond_signal (Some p) w = Return ABT_SUCCESS w' \<and>
           cv_inv w' p as' \<and> fmlookup (conds w') p = Some c' \<and>
           queue (entries w) as = x # queue (entries w') as' \<and>
           num_waiters c' = num_waiters c - 1 \<and> mutex c' = mutex c \<and>
           woken w' x \<and> fmdom' (entries w') \<subseteq> fmdom' (entries w) \<and>
           trace w' = trace w @ [MUTEX_LOCK (mutex c), wake_event x, MUTEX_UNLOCK (mutex c)]"
  using assms
proof (rule cv_inv_nonempty, goal_cases)
  case (1 h bs e t)
  let ?ts = "if type e = Some ABT_UNIT_TYPE_THREAD then (thread_state w)(t := READY) else thread_state w"
  let ?xs = "if type e = Some ABT_UNIT_TYPE_THREAD then ext_signal w else (ext_signal w)(t := 1)"
  let ?tr = "trace w @ [MUTEX_LOCK (mutex c), wake_event (type e, t), MUTEX_UNLOCK (mutex c)]"
  show ?case
  proof (cases "num_waiters c = 1")
    case True
    let ?c = "c\<lparr>waiter_mutex := None, num_waiters := 0\<rparr>"
    let ?w = "\<lparr>conds = fmupd p ?c (conds w), entries = fmupd h (e\<lparr>current := None\<rparr>) (entries w),
      thread_state = ?ts, ext_signal = ?xs, trace = ?tr\<rparr>"
    have "ABT_cond_signal (Some p) w = Return ABT_SUCCESS ?w"
      by (rule signal_last [OF assms(2) True 1(4,5,6)])
    moreover have "cv_inv ?w p as \<and> queue (entries ?w) as = tl (queue (entries w) as)"
      by (rule cv_inv_signal_last [OF assms(1,2) True 1(4,5)]) simp_all
    moreover have "woken ?w (type e, t)" by simp
    moreover have "fmdom' (entries ?w) \<subseteq> fmdom' (entries w)"
      using 1(5) by (auto dest: fmdom'I)
    ultimately show ?thesis using True 1(10)
      by (intro exI [of _ ?w] exI [of _ as] exI [of _ ?c] exI [of _ "(type e, t)"]) simp
  next
    case False
    with assms(3) have more: "num_waiters c > 1" by simp
    let ?c = "c\<lparr>waiters_head := next e, num_waiters := num_waiters c - 1\<rparr>"
    let ?w = "\<lparr>conds = fmupd p ?c (conds w), entries = fmdrop h (entries w),
      thread_state = ?ts, ext_signal = ?xs, trace = ?tr\<rparr>"
    have "ABT_cond_signal (Some p) w = Return ABT_SUCCESS ?w"
      by (rule signal_more [OF assms(2) more 1(4,5,6)])
    moreover have "cv_inv ?w p (tl as) \<and> queue (entries ?w) (tl as) = tl (queue (entries w) as)"
      by (rule cv_inv_signal_more [OF assms(1,2) more 1(4,5)]) simp_all
    moreover have "woken ?w (type e, t)" by simp
    moreover have "fmdom' (entries ?w) \<subseteq> fmdom' (entries w)"
      by auto
    ultimately show ?thesis using 1(10)
      by (intro exI [of _ ?w] exI [of _ "tl as"] exI [of _ ?c] exI [of _ "(type e, t)"]) simp
  qed
qed

lemma signal_returns:
  assumes "ABT_cond_signal cond w = Return e w'"
  shows "e = (if cond = ABT_COND_NULL then ABT_ERR_INV_COND else ABT_SUCCESS)"
  using assms
  by (auto simp: ABT_cond_signal_def Let_def split: option.splits if_splits prod.splits)

lemma broadcast_returns:
  assumes "ABT_cond_broadcast cond w = Return e w'"
  shows "e = (if cond = ABT_COND_NULL then ABT_ERR_INV_COND else ABT_SUCCESS)"
  using assms
  by (auto simp: ABT_cond_broadcast_def Let_def split: option.splits if_splits)

lemma wait_returns:
  assumes "ABT_cond_wait lp px me cond m w = Return e w'"
  shows "e \<in> {ABT_ERR_INV_COND, ABT_ERR_COND, ABT_ERR_INV_MUTEX}"
proof (cases cond)
  case None
  with assms show ?thesis by (simp add: wait_defs)
next
  case (Some p)
  show ?thesis
  proof (cases "caller_kind lp px")
    case None
    with assms Some show ?thesis by (simp add: wait_no_ult)
  next
    case k: (Some k)
    with assms Some show ?thesis
      by (cases k)
        (auto simp: wait_defs Let_def split: option.splits if_splits outcome.splits)
  qed
qed

lemma wait_suspendD:
  assumes "fmlookup (conds w) p = Some c"
    and "malloc_ok (Wait lp px me (Some p) m) w"
    and "ABT_cond_wait lp px me (Some p) m w = Suspend w'"
  shows "\<exists>t ty. caller_kind lp px = Some (t, ty)"
    and "waiter_mutex c = None \<or> waiter_mutex c = m"
    and "num_waiters c \<noteq> 0 \<longrightarrow> (\<exists>a. me = Some a \<and> fmlookup (entries w) a = None)"
proof -
  show k: "\<exists>t ty. caller_kind lp px = Some (t, ty)"
    using assms(3) wait_no_ult [of lp px me p m w] by (cases "caller_kind lp px") auto
  then obtain t ty where kind: "caller_kind lp px = Some (t, ty)" by blast
  show m: "waiter_mutex c = None \<or> waiter_mutex c = m"
  proof (rule ccontr)
    assume "\<not> (waiter_mutex c = None \<or> waiter_mutex c = m)"
    then have "waiter_mutex c \<noteq> None" "waiter_mutex c \<noteq> m" by simp_all
    from wait_mismatch [OF assms(1) kind this, of me] assms(3) show False by simp
  qed
  show "num_waiters c \<noteq> 0 \<longrightarrow> (\<exists>a. me = Some a \<and> fmlookup (entries w) a = None)"
  proof
    assume n: "num_waiters c \<noteq> 0"
    show "\<exists>a. me = Some a \<and> fmlookup (entries w) a = None"
    proof (cases me)
      case None
      with assms(3) wait_abort [OF assms(1) kind m n] show ?thesis by simp
    next
      case (Some a)
      with assms(2) show ?thesis by simp
    qed
  qed
qed

lemma waits_queue:
  assumes "cv_inv w p as" "fmlookup (conds w) p = Some c"
    and "waits cs (Some p) m w = Some w1"
  shows "\<exists>ks as1 c1. map (\<lambda>(lp, px, me). caller_kind lp px) cs = map Some ks \<and>
           cv_inv w1 p as1 \<and> fmlookup (conds w1) p = Some c1 \<and> mutex c1 = mutex c \<and>
           num_waiters c1 = num_waiters c + length cs \<and>
           queue (entries w1) as1 = queue (entries w) as @ map (\<lambda>(t, ty). (Some ty, t)) ks"
  using assms
proof (induction cs arbitrary: w as c)
  case Nil
  then show ?case by auto
next
  case (Cons call cs)
  obtain lp px me where call: "call = (lp, px, me)" by (cases call)
  from Cons.prems(3) obtain w' where ok: "malloc_ok (Wait lp px me (Some p) m) w"
    and w': "ABT_cond_wait lp px me (Some p) m w = Suspend w'" and rest: "waits cs (Some p) m w' = Some w1"
    by (auto simp: call split: if_splits outcome.splits)
  from wait_suspendD [OF Cons.prems(2) ok w'] obtain t ty where
    kind: "caller_kind lp px = Some (t, ty)"
    and mtx: "waiter_mutex c = None \<or> waiter_mutex c = m"
    and mem: "num_waiters c \<noteq> 0 \<longrightarrow> (\<exists>a. me = Some a \<and> fmlookup (entries w) a = None)"
    by blast
  from wait_enqueues [OF Cons.prems(1,2) kind mtx mem] w' obtain as' c' where
    step: "cv_inv w' p as'" "fmlookup (conds w') p = Some c'"
    "queue (entries w') as' = queue (entries w) as @ [(Some ty, t)]"
    "num_waiters c' = num_waiters c + 1" "mutex c' = mutex c"
    by auto
  from Cons.IH [OF step(1,2) rest] obtain ks as1 c1 where
    "map (\<lambda>(lp, px, me). caller_kind lp px) cs = map Some ks"
    "cv_inv w1 p as1" "fmlookup (conds w1) p = Some c1" "mutex c1 = mutex c'"
    "num_waiters c1 = num_waiters c' + length cs"
    "queue (entries w1) as1 = queue (entries w') as' @ map (\<lambda>(t, ty). (Some ty, t)) ks"
    by blast
  with step kind show ?case
    by (intro exI [of _ "(t, ty) # ks"] exI [of _ as1] exI [of _ c1]) (simp add: call)
qed

lemma signal_woken_mono:
  assumes "ABT_cond_signal cond w = Return e w'" "woken w y"
  shows "woken w' y"
proof (cases y)
  case (Pair ty t)
  with assms show ?thesis
    by (auto simp: ABT_cond_signal_def wake_def log_def Let_def
        split: option.splits if_splits prod.splits)
qed

lemma signals_woken_mono:
  assumes "signals k cond w = Some w2" "woken w y"
  shows "woken w2 y"
  using assms
proof (induction k arbitrary: w)
  case 0
  then show ?case by simp
next
  case (Suc k)
  from Suc.prems(1) obtain w' where
    s: "ABT_cond_signal cond w = Return ABT_SUCCESS w'" "signals k cond w' = Some w2"
    by (auto split: outcome.splits if_splits)
  from signal_woken_mono [OF s(1) Suc.prems(2)] have "woken w' y" .
  with Suc.IH [OF s(2)] show ?case .
qed

lemma signals_wake:
  assumes "cv_inv w p as" "fmlookup (conds w) p = Some c" "k \<le> length (queue (entries w) as)"
  shows "\<exists>w2 as2. signals k (Some p) w = Some w2 \<and>
           trace w2 = trace w @
             concat (map (\<lambda>x. [MUTEX_LOCK (mutex c), wake_event x, MUTEX_UNLOCK (mutex c)])
                      (take k (queue (entries w) as))) \<and>
           (\<forall>x\<in>set (take k (queue (entries w) as)). woken w2 x) \<and>
           cv_inv w2 p as2 \<and> queue (entries w2) as2 = drop k (queue (entries w) as)"
  using assms
proof (induction k arbitrary: w as c)
  case 0
  then show ?case by auto
next
  case (Suc k)
  from Suc.prems cv_invD(5) [OF Suc.prems(1,2)] have "num_waiters c \<noteq> 0" by auto
  from signal_dequeues [OF Suc.prems(1,2) this] obtain w' as' c' x where
    step: "ABT_cond_signal (Some p) w = Return ABT_SUCCESS w'" "cv_inv w' p as'"
    "fmlookup (conds w') p = Some c'" "queue (entries w) as = x # queue (entries w') as'"
    "mutex c' = mutex c" "woken w' x"
    "trace w' = trace w @ [MUTEX_LOCK (mutex c), wake_event x, MUTEX_UNLOCK (mutex c)]"
    by blast
  from Suc.prems(3) step(4) have "k \<le> length (queue (entries w') as')" by simp
  from Suc.IH [OF step(2,3) this] obtain w2 as2 where
    w2: "signals k (Some p) w' = Some w2"
    "trace w2 = trace w' @
             concat (map (\<lambda>x. [MUTEX_LOCK (mutex c'), wake_event x, MUTEX_UNLOCK (mutex c')])
                      (take k (queue (entries w') as')))"
    "\<forall>x\<in>set (take k (queue (entries w') as')). woken w2 x"
    "cv_inv w2 p as2" "queue (entries w2) as2 = drop k (queue (entries w') as')"
    by blast
  from signals_woken_mono [OF w2(1) step(6)] have "woken w2 x" .
  with w2 step show ?case
    by (intro exI [of _ w2] exI [of _ as2]) simp
qed

lemma signal_succeeds:
  assumes "cv_inv w p as"
  shows "\<exists>w'. ABT_cond_signal (Some p) w = Return ABT_SUCCESS w' \<and>
           fmdom' (entries w') \<subseteq> fmdom' (entries w)"
proof -
  from cv_inv_lookup [OF assms] obtain c where c: "fmlookup (conds w) p = Some c" ..
  show ?thesis
  proof (cases "num_waiters c = 0")
    case True
    from signal_empty [OF c True] show ?thesis by simp
  next
    case False
    from signal_dequeues [OF assms c False] show ?thesis by blast
  qed
qed

lemma broadcast_succeeds:
  assumes "cv_inv w p as"
  shows "\<exists>w'. ABT_cond_broadcast (Some p) w = Return ABT_SUCCESS w' \<and>
           fmdom' (entries w') \<subseteq> fmdom' (entries w)"
proof -
  from cv_inv_lookup [OF assms] obtain c where c: "fmlookup (conds w) p = Some c" ..
  show ?thesis
  proof (cases "num_waiters c = 0")
    case True
    from broadcast_empty [OF c True] show ?thesis by simp
  next
    case False
    from broadcast_all [OF assms c False] obtain w' e where
      w': "ABT_cond_broadcast (Some p) w = Return ABT_SUCCESS w'"
      "fmlookup (entries w) (hd as) = Some e"
      "entries w' = fmupd (hd as) (e\<lparr>current := None, next := None\<rparr>)
                    (fmdrop_set (set (tl as)) (entries w))"
      by blast
    from w'(2) have "fmdom' (entries w') \<subseteq> fmdom' (entries w)"
      by (auto simp: w'(3) dest: fmdom'I)
    with w'(1) show ?thesis by blast
  qed
qed

lemma signal_outcome:
  "(\<exists>w'. ABT_cond_signal cond w =
           Return (if cond = ABT_COND_NULL then ABT_ERR_INV_COND else ABT_SUCCESS) w') \<or>
   ABT_cond_signal cond w = Fault"
  by (auto simp: ABT_cond_signal_def Let_def split: option.splits prod.splits)

lemma broadcast_outcome:
  "(\<exists>w'. ABT_cond_broadcast cond w =
           Return (if cond = ABT_COND_NULL then ABT_ERR_INV_COND else ABT_SUCCESS) w') \<or>
   ABT_cond_broadcast cond w = Fault"
  by (auto simp: ABT_cond_broadcast_def Let_def split: option.splits)

section \<open>The association of the user mutex\<close>

lemma assoc_exec:
  assumes "world_inv w ns" "malloc_ok cl w" "mutex_not_null cl" "exec cl w = Some w'"
    and inv: "\<And>p c. fmlookup (conds w) p = Some c \<Longrightarrow>
                (num_waiters c = 0 \<longleftrightarrow> waiter_mutex c = ABT_MUTEX_NULL)"
    and c': "fmlookup (conds w') q = Some c'"
  shows "num_waiters c' = 0 \<longleftrightarrow> waiter_mutex c' = ABT_MUTEX_NULL"
proof (cases cl)
  case (Create m_cond mc m_entry nc)
  from assms(2,4) [unfolded Create] show ?thesis
  proof (cases rule: create_cases)
    case unchanged
    with inv c' show ?thesis by simp
  next
    case (created p h)
    with inv [of q c'] c' show ?thesis
      by (cases "p = q") auto
  qed
next
  case (Wait lp px me cond m)
  with assms(3) have m: "m \<noteq> None" by simp
  from assms(1,2,4) [unfolded Wait] show ?thesis
  proof (cases rule: wait_cases)
    case unchanged
    with inv c' show ?thesis by simp
  next
    case (enq_first p c t ty h e)
    with inv [of q c'] c' m show ?thesis
      by (cases "p = q") auto
  next
    case (enq_next p c t ty a tn e)
    with inv [of q c'] c' m show ?thesis
      by (cases "p = q") auto
  qed
next
  case (Signal cond)
  from assms(1,4) [unfolded Signal] show ?thesis
  proof (cases rule: signal_cases)
    case unchanged
    with inv c' show ?thesis by simp
  next
    case (deq_last p c h e t)
    with inv [of q c'] c' show ?thesis
      by (cases "p = q") auto
  next
    case (deq_more p c h e t)
    with inv [of q c'] inv [of p c] c' show ?thesis
      by (cases "p = q") auto
  qed
next
  case (Broadcast cond)
  from assms(1,4) [unfolded Broadcast] show ?thesis
  proof (cases rule: broadcast_cases)
    case unchanged
    with inv c' show ?thesis by simp
  next
    case (wake_all p c h e)
    with inv [of q c'] c' show ?thesis
      by (cases "p = q") auto
  qed
qed

lemma assoc_run:
  assumes "run cls w = Some w'" "world_inv w ns" "list_all mutex_not_null cls"
    and "\<And>p c. fmlookup (conds w) p = Some c \<Longrightarrow>
                (num_waiters c = 0 \<longleftrightarrow> waiter_mutex c = ABT_MUTEX_NULL)"
    and "fmlookup (conds w') q = Some c'"
  shows "num_waiters c' = 0 \<longleftrightarrow> waiter_mutex c' = ABT_MUTEX_NULL"
  using assms
proof (induction cls arbitrary: w ns)
  case Nil
  then show ?case by simp
next
  case (Cons cl cls)
  from Cons.prems(1) obtain w1 where w1: "malloc_ok cl w" "exec cl w = Some w1" "run cls w1 = Some w'"
    by (auto split: if_splits option.splits)
  from Cons.prems(3) have ok: "mutex_not_null cl" "list_all mutex_not_null cls" by simp_all
  from world_inv_exec [OF Cons.prems(2) w1(1,2)] obtain ns1 where ns1: "world_inv w1 ns1" ..
  have "num_waiters c = 0 \<longleftrightarrow> waiter_mutex c = ABT_MUTEX_NULL"
    if "fmlookup (conds w1) p = Some c" for p c
    using Cons.prems(2) w1(1) ok(1) w1(2) Cons.prems(4) that by (rule assoc_exec)
  with Cons.IH [OF w1(3) ns1 ok(2) _ Cons.prems(5)] show ?case by blast
qed

section \<open>Condition variables: the claims\<close>

text \<open>
  C5, as the code has it. \<^verbatim>\<open>ABT_cond_wait\<close>, called by a ULT or by an external thread with a
  mutex other than the one associated with the waiters, takes the guard, releases it and
  returns \<^verbatim>\<open>ABT_ERR_INV_MUTEX\<close>. The struct of the condition variable (so \<open>num_waiters\<close> and
  \<open>waiter_mutex\<close>), the nodes of the queue and the state of every ULT are as before.
\<close>

theorem ABT_cond_wait_mutex_mismatch:
  assumes "fmlookup (conds w) p = Some c" and "waiter_mutex c = Some m'" and "mutex0 \<noteq> Some m'"
    and "caller_kind lp px = Some k"
  shows "\<exists>w'. ABT_cond_wait lp px m_entry (Some p) mutex0 w = Return ABT_ERR_INV_MUTEX w' \<and>
           conds w' = conds w \<and> entries w' = entries w \<and> thread_state w' = thread_state w \<and>
           trace w' = trace w @ [MUTEX_SPINLOCK (mutex c), MUTEX_UNLOCK (mutex c)]"
proof -
  obtain t ty where "k = (t, ty)" by (cases k)
  with assms have "ABT_cond_wait lp px m_entry (Some p) mutex0 w =
      Return ABT_ERR_INV_MUTEX
        (w\<lparr>ext_signal := (ext_signal w)(px := 0),
           trace := trace w @ [MUTEX_SPINLOCK (mutex c), MUTEX_UNLOCK (mutex c)]\<rparr>)"
    by (intro wait_mismatch) auto
  then show ?thesis by simp
qed

text \<open>
  ULT 41 calls \<^verbatim>\<open>ABT_cond_wait\<close> with mutex 8 while ULT 40 waits with mutex 7: the condition
  variable still has its one waiter.
\<close>

theorem ABT_cond_wait_mutex_mismatch_witness:
  "\<exists>w'. ABT_cond_wait (Some \<lparr>p_thread = Some 41\<rparr>) 5 (Some 11) (Some 100) (Some 8) world2 =
           Return ABT_ERR_INV_MUTEX w' \<and>
         conds w' = conds world2 \<and> entries w' = entries world2 \<and>
         thread_state w' = thread_state world2 \<and>
         trace w' = trace world2 @ [MUTEX_SPINLOCK (Some 9), MUTEX_UNLOCK (Some 9)]"
  using ABT_cond_wait_mutex_mismatch [of world2 100
      "\<lparr>mutex = Some 9, waiter_mutex = Some 7, num_waiters = 1,
        waiters_head = Some 10, waiters_tail = Some 10\<rparr>" 7 "Some 8"
      "Some \<lparr>p_thread = Some 41\<rparr>" 5 "(41, ABT_UNIT_TYPE_THREAD)" "Some 11"]
  by (simp add: world2_def world1_def world0_def caller_kind_def)

text \<open>
  C5 as stated fails: while ULT 40 waits with mutex 7, \<^verbatim>\<open>ABT_cond_wait\<close> is called with mutex
  8 on an OS thread whose \<^verbatim>\<open>lp_ABTI_local\<close> is set but which runs no ULT. The call returns
  \<^verbatim>\<open>ABT_ERR_COND\<close>, not \<^verbatim>\<open>ABT_ERR_INV_MUTEX\<close>, and never takes the guard.
\<close>

theorem ABT_cond_wait_mutex_mismatch_no_ult:
  "ABT_cond_wait (Some \<lparr>p_thread = None\<rparr>) 5 (Some 11) (Some 100) (Some 8) world2 =
     Return ABT_ERR_COND (world2\<lparr>ext_signal := (ext_signal world2)(5 := 0)\<rparr>)"
  by (simp add: ABT_cond_wait_def caller_kind_def)

text \<open>
  C6. \<^verbatim>\<open>ABT_cond_signal\<close> on a condition variable without waiters takes the guard, releases
  it and returns \<^verbatim>\<open>ABT_SUCCESS\<close>; nothing else changes.
\<close>

theorem ABT_cond_signal_no_waiters:
  assumes "fmlookup (conds w) p = Some c" and "num_waiters c = 0"
  shows "ABT_cond_signal (Some p) w =
           Return ABT_SUCCESS
             (w\<lparr>trace := trace w @ [MUTEX_LOCK (mutex c), MUTEX_UNLOCK (mutex c)]\<rparr>)"
  using assms by (rule signal_empty)

text \<open>A signal on the condition variable of \<open>world1\<close>, which nobody waits on.\<close>

theorem ABT_cond_signal_no_waiters_witness:
  "ABT_cond_signal (Some 100) world1 =
     Return ABT_SUCCESS (world1\<lparr>trace := [MUTEX_LOCK (Some 9), MUTEX_UNLOCK (Some 9)]\<rparr>)"
  using ABT_cond_signal_no_waiters [of world1 100
      "\<lparr>mutex = Some 9, waiter_mutex = ABT_MUTEX_NULL, num_waiters = 0,
        waiters_head = Some 10, waiters_tail = Some 10\<rparr>"]
  by (simp add: world1_def world0_def)

text \<open>
  C9. With \<^verbatim>\<open>lp_ABTI_local\<close> set but no current ULT, \<^verbatim>\<open>ABT_cond_wait\<close> returns
  \<^verbatim>\<open>ABT_ERR_COND\<close> and has touched neither the condition variable nor the queue nor the
  mutexes. With \<^verbatim>\<open>lp_ABTI_local\<close> unset the caller is an external thread: on a well-formed
  condition variable, with the right mutex and memory for a node where one is needed, the call
  appends a waiter of type \<^verbatim>\<open>ABT_UNIT_TYPE_EXT\<close> whose target is the caller's
  \<^verbatim>\<open>ext_signal\<close>, which is zero, and parks the caller.
\<close>

theorem ABT_cond_wait_caller_kind:
  "(p_thread l = None \<longrightarrow>
      (\<exists>w'. ABT_cond_wait (Some l) px m_entry (Some p) mutex0 w = Return ABT_ERR_COND w' \<and>
         conds w' = conds w \<and> entries w' = entries w \<and> thread_state w' = thread_state w \<and>
         trace w' = trace w)) \<and>
   (cv_inv w p as \<and> fmlookup (conds w) p = Some c \<and>
    (waiter_mutex c = ABT_MUTEX_NULL \<or> waiter_mutex c = mutex0) \<and>
    (num_waiters c \<noteq> 0 \<longrightarrow> (\<exists>a. m_entry = Some a \<and> fmlookup (entries w) a = None)) \<longrightarrow>
      (\<exists>w' as' c'. ABT_cond_wait None px m_entry (Some p) mutex0 w = Suspend w' \<and>
         cv_inv w' p as' \<and> fmlookup (conds w') p = Some c' \<and>
         num_waiters c' = num_waiters c + 1 \<and>
         queue (entries w') as' = queue (entries w) as @ [(Some ABT_UNIT_TYPE_EXT, px)] \<and>
         ext_signal w' px = 0))"
proof (intro conjI impI)
  assume "p_thread l = None"
  then have "ABT_cond_wait (Some l) px m_entry (Some p) mutex0 w =
      Return ABT_ERR_COND (w\<lparr>ext_signal := (ext_signal w)(px := 0)\<rparr>)"
    by (intro wait_no_ult) (simp add: caller_kind_def)
  then show "\<exists>w'. ABT_cond_wait (Some l) px m_entry (Some p) mutex0 w = Return ABT_ERR_COND w' \<and>
         conds w' = conds w \<and> entries w' = entries w \<and> thread_state w' = thread_state w \<and>
         trace w' = trace w"
    by simp
next
  assume h: "cv_inv w p as \<and> fmlookup (conds w) p = Some c \<and>
    (waiter_mutex c = ABT_MUTEX_NULL \<or> waiter_mutex c = mutex0) \<and>
    (num_waiters c \<noteq> 0 \<longrightarrow> (\<exists>a. m_entry = Some a \<and> fmlookup (entries w) a = None))"
  have k: "caller_kind None px = Some (px, ABT_UNIT_TYPE_EXT)"
    by (simp add: caller_kind_def)
  from h have "cv_inv w p as" "fmlookup (conds w) p = Some c"
    "waiter_mutex c = None \<or> waiter_mutex c = mutex0"
    "num_waiters c \<noteq> 0 \<longrightarrow> (\<exists>a. m_entry = Some a \<and> fmlookup (entries w) a = None)"
    by simp_all
  from wait_enqueues [OF this(1,2) k this(3,4)]
  show "\<exists>w' as' c'. ABT_cond_wait None px m_entry (Some p) mutex0 w = Suspend w' \<and>
         cv_inv w' p as' \<and> fmlookup (conds w') p = Some c' \<and>
         num_waiters c' = num_waiters c + 1 \<and>
         queue (entries w') as' = queue (entries w) as @ [(Some ABT_UNIT_TYPE_EXT, px)] \<and>
         ext_signal w' px = 0"
    by fastforce
qed

text \<open>
  Both kinds of caller on the condition variable of \<open>world2\<close>: the one without a ULT is
  turned away, the external thread is queued behind ULT 40.
\<close>

theorem ABT_cond_wait_caller_kind_witness:
  "(\<exists>w'. ABT_cond_wait (Some \<lparr>p_thread = None\<rparr>) 6 (Some 11) (Some 100) (Some 7) world2 =
            Return ABT_ERR_COND w' \<and>
          conds w' = conds world2 \<and> entries w' = entries world2 \<and>
          thread_state w' = thread_state world2 \<and> trace w' = trace world2) \<and>
   (\<exists>w' as' c'. ABT_cond_wait None 6 (Some 11) (Some 100) (Some 7) world2 = Suspend w' \<and>
          cv_inv w' 100 as' \<and> fmlookup (conds w') 100 = Some c' \<and> num_waiters c' = 2 \<and>
          queue (entries w') as' =
            [(Some ABT_UNIT_TYPE_THREAD, 40), (Some ABT_UNIT_TYPE_EXT, 6)] \<and>
          ext_signal w' 6 = 0)"
proof -
  have "fmlookup (conds world2) 100 =
      Some \<lparr>mutex = Some 9, waiter_mutex = Some 7, num_waiters = 1,
            waiters_head = Some 10, waiters_tail = Some 10\<rparr>"
    and "fmlookup (entries world2) 11 = None"
    and "queue (entries world2) [10] = [(Some ABT_UNIT_TYPE_THREAD, 40)]"
    by (simp_all add: world2_def world1_def world0_def)
  with inv2
    ABT_cond_wait_caller_kind [of "\<lparr>p_thread = None\<rparr>" 6 "Some 11" 100 "Some 7" world2 "[10]"
      "\<lparr>mutex = Some 9, waiter_mutex = Some 7, num_waiters = 1,
        waiters_head = Some 10, waiters_tail = Some 10\<rparr>"]
  show ?thesis
    by (simp add: numeral_2_eq_2)
qed

text \<open>
  C4, as the code has it. Let \<^verbatim>\<open>ABT_cond_wait\<close> get as far as allocating a node: its caller
  is a ULT or an external thread, the condition variable has waiters, and it has no mutex
  associated or the one of the call. When \<^verbatim>\<open>ABTU_malloc\<close> then returns \<^verbatim>\<open>NULL\<close>,
  \<^verbatim>\<open>assert(p_entry != NULL)\<close> fails. Up to there the call has taken the guard and has made
  sure that \<open>waiter_mutex\<close> is its mutex, which changes the struct only if no mutex was
  associated; \<open>num_waiters\<close>, the queue and the state of the ULTs are as before, and neither
  the guard nor the user mutex has been released. No call of \<^verbatim>\<open>ABT_cond_wait\<close> returns
  \<^verbatim>\<open>ABT_ERR_MEM\<close>.
\<close>

theorem ABT_cond_wait_alloc_failure:
  "(fmlookup (conds w) p = Some c \<and> num_waiters c \<noteq> 0 \<and>
    (waiter_mutex c = ABT_MUTEX_NULL \<or> waiter_mutex c = mutex0) \<and>
    caller_kind lp px \<noteq> None \<longrightarrow>
      (\<exists>w'. ABT_cond_wait lp px None (Some p) mutex0 w = Abort w' \<and>
         conds w' = fmupd p (c\<lparr>waiter_mutex := mutex0\<rparr>) (conds w) \<and>
         (waiter_mutex c = mutex0 \<longrightarrow> conds w' = conds w) \<and>
         entries w' = entries w \<and> thread_state w' = thread_state w \<and>
         trace w' = trace w @ [MUTEX_SPINLOCK (mutex c)])) \<and>
   ABT_cond_wait lp px m_entry cond mutex0 w \<noteq> Return ABT_ERR_MEM w1"
proof (intro conjI impI)
  assume h: "fmlookup (conds w) p = Some c \<and> num_waiters c \<noteq> 0 \<and>
    (waiter_mutex c = ABT_MUTEX_NULL \<or> waiter_mutex c = mutex0) \<and>
    caller_kind lp px \<noteq> None"
  then obtain t ty where k: "caller_kind lp px = Some (t, ty)" by auto
  from h have c: "fmlookup (conds w) p = Some c" and n: "num_waiters c \<noteq> 0"
    and m: "waiter_mutex c = None \<or> waiter_mutex c = mutex0"
    by simp_all
  have same: "fmupd p (c\<lparr>waiter_mutex := mutex0\<rparr>) (conds w) = conds w"
    if "waiter_mutex c = mutex0"
    using c that by (intro fmap_ext) auto
  have "ABT_cond_wait lp px None (Some p) mutex0 w = Abort
     (w\<lparr>ext_signal := (ext_signal w)(px := 0),
        conds := fmupd p (c\<lparr>waiter_mutex := mutex0\<rparr>) (conds w),
        trace := trace w @ [MUTEX_SPINLOCK (mutex c)]\<rparr>)"
    by (rule wait_abort [OF c k m n])
  with same show "\<exists>w'. ABT_cond_wait lp px None (Some p) mutex0 w = Abort w' \<and>
         conds w' = fmupd p (c\<lparr>waiter_mutex := mutex0\<rparr>) (conds w) \<and>
         (waiter_mutex c = mutex0 \<longrightarrow> conds w' = conds w) \<and>
         entries w' = entries w \<and> thread_state w' = thread_state w \<and>
         trace w' = trace w @ [MUTEX_SPINLOCK (mutex c)]"
    by simp
next
  show "ABT_cond_wait lp px m_entry cond mutex0 w \<noteq> Return ABT_ERR_MEM w1"
    using wait_returns [of lp px m_entry cond mutex0 w ABT_ERR_MEM w1] by auto
qed

text \<open>An external thread is the second to wait, and there is no memory for its node.\<close>

theorem ABT_cond_wait_alloc_failure_witness:
  "\<exists>w'. ABT_cond_wait None 6 None (Some 100) (Some 7) world2 = Abort w' \<and>
         conds w' = conds world2 \<and> entries w' = entries world2 \<and>
         thread_state w' = thread_state world2 \<and>
         trace w' = trace world2 @ [MUTEX_SPINLOCK (Some 9)]"
  using ABT_cond_wait_alloc_failure [of world2 100
      "\<lparr>mutex = Some 9, waiter_mutex = Some 7, num_waiters = 1,
        waiters_head = Some 10, waiters_tail = Some 10\<rparr>" "Some 7" None 6]
  by (simp add: world2_def world1_def world0_def caller_kind_def)

text \<open>
  C4 as stated fails: with ULT 40 waiting, an external thread calls \<^verbatim>\<open>ABT_cond_wait\<close> and
  \<^verbatim>\<open>ABTU_malloc\<close> returns \<^verbatim>\<open>NULL\<close>. The call does not return \<^verbatim>\<open>ABT_ERR_MEM\<close>; the
  assertion fails while the guard is held.
\<close>

theorem ABT_cond_wait_alloc_failure_aborts:
  "ABT_cond_wait None 6 None (Some 100) (Some 7) world2 =
     Abort (world2\<lparr>ext_signal := (ext_signal world2)(6 := 0),
                  trace := trace world2 @ [MUTEX_SPINLOCK (Some 9)]\<rparr>)"
  by (simp add: wait_defs caller_kind_def Let_def log_def world2_def world1_def world0_def)

text \<open>
  C2. \<^verbatim>\<open>ABT_cond_broadcast\<close> on a well-formed condition variable (as all are that a run
  has produced, \<open>run_cv_inv\<close>) with \<open>N \<ge> 1\<close> waiters returns \<^verbatim>\<open>ABT_SUCCESS\<close>. Between taking and releasing the guard it wakes the \<open>N\<close> waiters
  of the queue in the order of the queue, after which every ULT among them is \<open>READY\<close> and the
  flag of every external thread among them is 1. It frees the \<open>N - 1\<close> nodes after the head
  node and no other. The head node stays, with \<open>current\<close> and \<open>next\<close> \<^verbatim>\<open>NULL\<close>, and is head
  and tail of the queue; \<open>num_waiters\<close> is 0 and \<open>waiter_mutex\<close> is the null handle.
\<close>

theorem ABT_cond_broadcast_wakes_all:
  assumes "cv_inv w p as" and "fmlookup (conds w) p = Some c" and "1 \<le> num_waiters c"
  shows "\<exists>w' c' s. ABT_cond_broadcast (Some p) w = Return ABT_SUCCESS w' \<and>
     length (queue (entries w) as) = num_waiters c \<and>
     trace w' = trace w @ MUTEX_LOCK (mutex c) # map wake_event (queue (entries w) as) @
                  [MUTEX_UNLOCK (mutex c)] \<and>
     (\<forall>x\<in>set (queue (entries w) as). woken w' x) \<and>
     set (tl as) \<subseteq> fmdom' (entries w) \<and> card (set (tl as)) = num_waiters c - 1 \<and>
     fmdom' (entries w') = fmdom' (entries w) - set (tl as) \<and>
     fmlookup (conds w') p = Some c' \<and> num_waiters c' = 0 \<and>
     waiter_mutex c' = ABT_MUTEX_NULL \<and>
     waiters_head c = Some (hd as) \<and> waiters_head c' = Some (hd as) \<and>
     waiters_tail c' = Some (hd as) \<and>
     fmlookup (entries w') (hd as) = Some s \<and> current s = None \<and> next s = None"
proof -
  from assms(3) have ne: "num_waiters c \<noteq> 0" by simp
  note inv = cv_invD [OF assms(1,2)]
  from broadcast_all [OF assms(1,2) ne] obtain w' e where
    w': "ABT_cond_broadcast (Some p) w = Return ABT_SUCCESS w'"
    "fmlookup (entries w) (hd as) = Some e"
    "conds w' = fmupd p (c\<lparr>waiters_tail := Some (hd as), num_waiters := 0,
                           waiter_mutex := ABT_MUTEX_NULL\<rparr>) (conds w)"
    "entries w' = fmupd (hd as) (e\<lparr>current := None, next := None\<rparr>)
                    (fmdrop_set (set (tl as)) (entries w))"
    "trace w' = trace w @ MUTEX_LOCK (mutex c) # map wake_event (queue (entries w) as) @
                  [MUTEX_UNLOCK (mutex c)]"
    "\<forall>x\<in>set (queue (entries w) as). woken w' x"
    by blast
  from inv(3) obtain h bs where as: "as = h # bs" by (cases as) auto
  with inv(2) have hbs: "h \<notin> set bs" "distinct bs" by simp_all
  have alloc: "set (tl as) \<subseteq> fmdom' (entries w)"
    using cv_inv_allocated [OF assms(1)] as by (auto intro: fmdom'I)
  from inv(6) ne as hbs have card: "card (set (tl as)) = num_waiters c - 1"
    by (simp add: distinct_card)
  have dom: "fmdom' (entries w') = fmdom' (entries w) - set (tl as)"
    using w'(2) as hbs by (auto simp: w'(4) dest: fmdom'I)
  let ?c = "c\<lparr>waiters_tail := Some (hd as), num_waiters := 0, waiter_mutex := ABT_MUTEX_NULL\<rparr>"
  let ?s = "e\<lparr>current := None, next := None\<rparr>"
  have "fmlookup (conds w') p = Some ?c" "fmlookup (entries w') (hd as) = Some ?s"
    by (simp_all add: w'(3,4))
  with w'(1,5,6) inv(5,7) alloc card dom show ?thesis
    by (intro exI [of _ w'] exI [of _ ?c] exI [of _ ?s]) simp
qed

text \<open>
  ULT 40 and the external thread with its flag at 6 wait; the broadcast wakes them in this
  order, frees node 11 and keeps node 10.
\<close>

theorem ABT_cond_broadcast_wakes_all_witness:
  "\<exists>w' c' s. ABT_cond_broadcast (Some 100) world3 = Return ABT_SUCCESS w' \<and>
     trace w' = trace world3 @
        [MUTEX_LOCK (Some 9), THREAD_SET_READY 40, EXT_SIGNAL 6, MUTEX_UNLOCK (Some 9)] \<and>
     thread_state w' 40 = READY \<and> ext_signal w' 6 = 1 \<and>
     fmdom' (entries w') = {10} \<and>
     fmlookup (conds w') 100 = Some c' \<and> num_waiters c' = 0 \<and>
     waiter_mutex c' = ABT_MUTEX_NULL \<and>
     waiters_head c' = Some 10 \<and> waiters_tail c' = Some 10 \<and>
     fmlookup (entries w') 10 = Some s \<and> current s = None \<and> next s = None"
proof -
  have c: "fmlookup (conds world3) 100 =
      Some \<lparr>mutex = Some 9, waiter_mutex = Some 7, num_waiters = 2,
            waiters_head = Some 10, waiters_tail = Some 11\<rparr>"
    and q: "queue (entries world3) [10, 11] =
      [(Some ABT_UNIT_TYPE_THREAD, 40), (Some ABT_UNIT_TYPE_EXT, 6)]"
    and d: "fmdom' (entries world3) = {10, 11}"
    by (auto simp: world3_def world2_def world1_def world0_def)
  from ABT_cond_broadcast_wakes_all [OF inv3 c] q d show ?thesis
    by fastforce
qed

text \<open>
  C1. On a well-formed condition variable (as all are that a run has produced,
  \<open>run_cv_inv\<close>) whose queue is \<open>q\<close>, let the calls \<open>cs\<close> of
  \<^verbatim>\<open>ABT_cond_wait\<close> queue their callers one after the other. The queue then is \<open>q\<close> followed
  by these callers in the order of the calls, and for every \<open>k\<close> up to its length, \<open>k\<close> calls
  of \<^verbatim>\<open>ABT_cond_signal\<close> in a row all return \<^verbatim>\<open>ABT_SUCCESS\<close> and wake exactly its first \<open>k\<close>
  waiters, one per call and in the order of the queue: afterwards every ULT among these is
  \<open>READY\<close>, the flag of every external thread among them is 1, and the queue holds the other
  waiters. With \<open>q\<close> empty, the \<open>k\<close>-th signal wakes the caller of the \<open>k\<close>-th wait.
\<close>

theorem signals_wake_in_wait_order:
  assumes "cv_inv w p as" and "fmlookup (conds w) p = Some c"
    and "waits cs (Some p) mutex0 w = Some w1"
  shows "\<exists>ks as1.
           map (\<lambda>(lp, px, m_entry). caller_kind lp px) cs = map Some ks \<and>
           cv_inv w1 p as1 \<and>
           queue (entries w1) as1 = queue (entries w) as @ map (\<lambda>(t, ty). (Some ty, t)) ks \<and>
           (\<forall>k\<le>length (queue (entries w1) as1).
              \<exists>w2 as2. signals k (Some p) w1 = Some w2 \<and>
                trace w2 = trace w1 @
                  concat (map (\<lambda>x. [MUTEX_LOCK (mutex c), wake_event x, MUTEX_UNLOCK (mutex c)])
                            (take k (queue (entries w1) as1))) \<and>
                (\<forall>x\<in>set (take k (queue (entries w1) as1)). woken w2 x) \<and>
                cv_inv w2 p as2 \<and>
                queue (entries w2) as2 = drop k (queue (entries w1) as1))"
proof -
  from waits_queue [OF assms] obtain ks as1 c1 where
    q: "map (\<lambda>(lp, px, me). caller_kind lp px) cs = map Some ks"
    "cv_inv w1 p as1" "fmlookup (conds w1) p = Some c1" "mutex c1 = mutex c"
    "queue (entries w1) as1 = queue (entries w) as @ map (\<lambda>(t, ty). (Some ty, t)) ks"
    by blast
  have "\<exists>w2 as2. signals k (Some p) w1 = Some w2 \<and>
                trace w2 = trace w1 @
                  concat (map (\<lambda>x. [MUTEX_LOCK (mutex c), wake_event x, MUTEX_UNLOCK (mutex c)])
                            (take k (queue (entries w1) as1))) \<and>
                (\<forall>x\<in>set (take k (queue (entries w1) as1)). woken w2 x) \<and>
                cv_inv w2 p as2 \<and>
                queue (entries w2) as2 = drop k (queue (entries w1) as1)"
    if "k \<le> length (queue (entries w1) as1)" for k
    using signals_wake [OF q(2,3) that] by (simp add: q(4))
  with q(1,2,5) show ?thesis by blast
qed

text \<open>
  On the fresh condition variable of \<open>world1\<close>, ULT 40 waits, then the external thread with
  its flag at 6; two signals wake ULT 40 first and the external thread second, and leave the
  queue empty.
\<close>

theorem signals_wake_in_wait_order_witness:
  "waits [(Some \<lparr>p_thread = Some 40\<rparr>, 5, None), (None, 6, Some 11)] (Some 100) (Some 7) world1 =
     Some world3 \<and>
   (\<exists>w2 as2. signals 2 (Some 100) world3 = Some w2 \<and>
      trace w2 = trace world3 @
        [MUTEX_LOCK (Some 9), THREAD_SET_READY 40, MUTEX_UNLOCK (Some 9),
         MUTEX_LOCK (Some 9), EXT_SIGNAL 6, MUTEX_UNLOCK (Some 9)] \<and>
      thread_state w2 40 = READY \<and> ext_signal w2 6 = 1 \<and>
      cv_inv w2 100 as2 \<and> queue (entries w2) as2 = [])"
proof -
  have c: "fmlookup (conds world1) 100 =
      Some \<lparr>mutex = Some 9, waiter_mutex = ABT_MUTEX_NULL, num_waiters = 0,
            waiters_head = Some 10, waiters_tail = Some 10\<rparr>"
    and q1: "queue (entries world1) [10] = []"
    by (simp_all add: world1_def world0_def)
  have "malloc_ok (Wait None 6 (Some 11) (Some 100) (Some 7)) world2"
    by (simp add: world2_def world1_def world0_def)
  then have ws: "waits [(Some \<lparr>p_thread = Some 40\<rparr>, 5, None), (None, 6, Some 11)] (Some 100)
      (Some 7) world1 = Some world3"
    by (simp add: ex2 ex3)
  let ?c = "\<lparr>mutex = Some 9, waiter_mutex = ABT_MUTEX_NULL, num_waiters = 0,
            waiters_head = Some 10, waiters_tail = Some 10\<rparr>"
  from signals_wake_in_wait_order [OF inv1 c ws] obtain ks as1 where
    ks: "map (\<lambda>(lp, px, m_entry). caller_kind lp px)
           [(Some \<lparr>p_thread = Some 40\<rparr>, 5, None), (None, 6, Some (11::addr))] = map Some ks"
    and q: "queue (entries world3) as1 = queue (entries world1) [10] @ map (\<lambda>(t, ty). (Some ty, t)) ks"
    and sg: "\<forall>k\<le>length (queue (entries world3) as1).
              \<exists>w2 as2. signals k (Some 100) world3 = Some w2 \<and>
                trace w2 = trace world3 @
                  concat (map (\<lambda>x. [MUTEX_LOCK (mutex ?c), wake_event x, MUTEX_UNLOCK (mutex ?c)])
                            (take k (queue (entries world3) as1))) \<and>
                (\<forall>x\<in>set (take k (queue (entries world3) as1)). woken w2 x) \<and>
                cv_inv w2 100 as2 \<and>
                queue (entries w2) as2 = drop k (queue (entries world3) as1)"
    by (elim exE conjE) (rule that; assumption)
  from ks have "ks = [(40, ABT_UNIT_TYPE_THREAD), (6, ABT_UNIT_TYPE_EXT)]"
    by (auto simp: caller_kind_def)
  with q q1 have "queue (entries world3) as1 =
      [(Some ABT_UNIT_TYPE_THREAD, 40), (Some ABT_UNIT_TYPE_EXT, 6)]"
    by simp
  with sg [rule_format, of 2] ws show ?thesis
    by (simp add: numeral_2_eq_2)
qed

text \<open>
  C10. \<^verbatim>\<open>ABT_cond_signal\<close> and \<^verbatim>\<open>ABT_cond_broadcast\<close> have no way to fail an assertion and
  no error to return but \<^verbatim>\<open>ABT_ERR_INV_COND\<close>, which they return for the null handle and for
  no other: a call with another handle returns \<^verbatim>\<open>ABT_SUCCESS\<close> unless it runs into a null or
  dangling pointer. It does not on a well-formed condition variable, and so on none that a run
  of calls has created and worked on: there both return \<^verbatim>\<open>ABT_SUCCESS\<close>. Neither takes
  anything from the allocator: no node is allocated afterwards that was not allocated before.
\<close>

theorem signal_broadcast_success:
  "((\<exists>w'. ABT_cond_signal cond w =
            Return (if cond = ABT_COND_NULL then ABT_ERR_INV_COND else ABT_SUCCESS) w') \<or>
    ABT_cond_signal cond w = Fault) \<and>
   ((\<exists>w'. ABT_cond_broadcast cond w =
            Return (if cond = ABT_COND_NULL then ABT_ERR_INV_COND else ABT_SUCCESS) w') \<or>
    ABT_cond_broadcast cond w = Fault) \<and>
   ABT_cond_signal ABT_COND_NULL w = Return ABT_ERR_INV_COND w \<and>
   ABT_cond_broadcast ABT_COND_NULL w = Return ABT_ERR_INV_COND w \<and>
   (cv_inv w p as \<or> (conds w0 = fmempty \<and> run cls w0 = Some w \<and> p \<in> fmdom' (conds w)) \<longrightarrow>
      (\<exists>w1. ABT_cond_signal (Some p) w = Return ABT_SUCCESS w1 \<and>
         fmdom' (entries w1) \<subseteq> fmdom' (entries w)) \<and>
      (\<exists>w1. ABT_cond_broadcast (Some p) w = Return ABT_SUCCESS w1 \<and>
         fmdom' (entries w1) \<subseteq> fmdom' (entries w)))"
proof (intro conjI impI)
  show "(\<exists>w'. ABT_cond_signal cond w =
            Return (if cond = ABT_COND_NULL then ABT_ERR_INV_COND else ABT_SUCCESS) w') \<or>
    ABT_cond_signal cond w = Fault"
    by (rule signal_outcome)
next
  show "(\<exists>w'. ABT_cond_broadcast cond w =
            Return (if cond = ABT_COND_NULL then ABT_ERR_INV_COND else ABT_SUCCESS) w') \<or>
    ABT_cond_broadcast cond w = Fault"
    by (rule broadcast_outcome)
next
  show "ABT_cond_signal ABT_COND_NULL w = Return ABT_ERR_INV_COND w"
    by (simp add: ABT_cond_signal_def)
next
  show "ABT_cond_broadcast ABT_COND_NULL w = Return ABT_ERR_INV_COND w"
    by (simp add: ABT_cond_broadcast_def)
next
  assume h: "cv_inv w p as \<or> (conds w0 = fmempty \<and> run cls w0 = Some w \<and> p \<in> fmdom' (conds w))"
  have "\<exists>bs. cv_inv w p bs"
  proof (rule disjE [OF h])
    assume "cv_inv w p as"
    then show ?thesis ..
  next
    assume r: "conds w0 = fmempty \<and> run cls w0 = Some w \<and> p \<in> fmdom' (conds w)"
    then have "world_inv w0 (\<lambda>p. [])" by (simp add: world_inv_init)
    with r world_inv_run [of cls w0 w] obtain ns where "world_inv w ns" by blast
    with r have "cv_inv w p (ns p)" by (simp add: world_inv_def)
    then show ?thesis ..
  qed
  then obtain bs where bs: "cv_inv w p bs" ..
  from signal_succeeds [OF bs]
  show "\<exists>w1. ABT_cond_signal (Some p) w = Return ABT_SUCCESS w1 \<and>
         fmdom' (entries w1) \<subseteq> fmdom' (entries w)" .
  from broadcast_succeeds [OF bs]
  show "\<exists>w1. ABT_cond_broadcast (Some p) w = Return ABT_SUCCESS w1 \<and>
         fmdom' (entries w1) \<subseteq> fmdom' (entries w)" .
qed

text \<open>The condition variable of \<open>world3\<close>, reached by a run, with its two waiters.\<close>

theorem signal_broadcast_success_witness:
  "(\<exists>w1. ABT_cond_signal (Some 100) world3 = Return ABT_SUCCESS w1 \<and>
         fmdom' (entries w1) \<subseteq> {10, 11}) \<and>
   (\<exists>w1. ABT_cond_broadcast (Some 100) world3 = Return ABT_SUCCESS w1 \<and>
         fmdom' (entries w1) \<subseteq> {10, 11})"
proof -
  have d: "fmdom' (entries world3) = {10, 11}" "100 \<in> fmdom' (conds world3)"
    "conds world0 = fmempty"
    by (auto simp: world3_def world2_def world1_def world0_def)
  from signal_broadcast_success [of "Some 100" world3 100 "[10, 11]" world0
      "[Create (Some 100) (ABT_SUCCESS, Some 9) (Some 10) ABT_COND_NULL,
        Wait (Some \<lparr>p_thread = Some 40\<rparr>) 5 None (Some 100) (Some 7),
        Wait None 6 (Some 11) (Some 100) (Some 7)]"]
    inv3 d ex_run
  show ?thesis by simp
qed

text \<open>
  C3, as the code has it. Start without any condition variable and let calls of the four
  operations take effect one after the other, no call of \<^verbatim>\<open>ABT_cond_wait\<close> passing the
  null handle as its mutex. Then in every condition variable \<open>num_waiters\<close> is 0 if and only
  if \<open>waiter_mutex\<close> is \<^verbatim>\<open>ABT_MUTEX_NULL\<close>.
\<close>

theorem num_waiters_zero_iff_no_mutex:
  assumes "conds w0 = fmempty" and "run cls w0 = Some w" and "list_all mutex_not_null cls"
    and "fmlookup (conds w) p = Some c"
  shows "num_waiters c = 0 \<longleftrightarrow> waiter_mutex c = ABT_MUTEX_NULL"
proof -
  from assms(1) have "world_inv w0 (\<lambda>p. [])" by (rule world_inv_init)
  with assms(2) show ?thesis
    using assms(3) _ assms(4) by (rule assoc_run) (simp add: assms(1))
qed

text \<open>The run that leads to \<open>world3\<close>: two waiters, and mutex 7 associated.\<close>

theorem num_waiters_zero_iff_no_mutex_witness:
  "fmlookup (conds world3) 100 =
     Some \<lparr>mutex = Some 9, waiter_mutex = Some 7, num_waiters = 2,
           waiters_head = Some 10, waiters_tail = Some 11\<rparr> \<and>
   ((2::nat) = 0 \<longleftrightarrow> Some (7::addr) = ABT_MUTEX_NULL)"
proof -
  have c: "fmlookup (conds world3) 100 =
      Some \<lparr>mutex = Some 9, waiter_mutex = Some 7, num_waiters = 2,
            waiters_head = Some 10, waiters_tail = Some 11\<rparr>"
    and e: "conds world0 = fmempty"
    by (simp_all add: world3_def world2_def world1_def world0_def)
  from num_waiters_zero_iff_no_mutex [OF e ex_run _ c] c show ?thesis
    by simp
qed

text \<open>
  C3 as stated fails: ULT 40 calls \<^verbatim>\<open>ABT_cond_wait\<close> on the fresh condition variable with
  \<^verbatim>\<open>ABT_MUTEX_NULL\<close> for the mutex. The call queues the ULT, and the condition variable has
  one waiter and no associated mutex.
\<close>

theorem num_waiters_one_without_mutex:
  "run [Create (Some 100) (ABT_SUCCESS, Some 9) (Some 10) ABT_COND_NULL,
        Wait (Some \<lparr>p_thread = Some 40\<rparr>) 5 None (Some 100) ABT_MUTEX_NULL] world0 =
     Some (world2\<lparr>conds := fmupd 100
                     \<lparr>mutex = Some 9, waiter_mutex = ABT_MUTEX_NULL, num_waiters = 1,
                      waiters_head = Some 10, waiters_tail = Some 10\<rparr> fmempty,
                  trace := [MUTEX_SPINLOCK (Some 9), THREAD_SET_BLOCKED 40,
                            MUTEX_UNLOCK (Some 9), MUTEX_UNLOCK ABT_MUTEX_NULL]\<rparr>)"
proof -
  have "malloc_ok (Create (Some 100) (ABT_SUCCESS, Some 9) (Some 10) ABT_COND_NULL) world0"
    by (simp add: world0_def)
  moreover have "ABT_cond_wait (Some \<lparr>p_thread = Some 40\<rparr>) 5 None (Some 100) ABT_MUTEX_NULL world1 =
      Suspend (world2\<lparr>conds := fmupd 100
                     \<lparr>mutex = Some 9, waiter_mutex = ABT_MUTEX_NULL, num_waiters = 1,
                      waiters_head = Some 10, waiters_tail = Some 10\<rparr> fmempty,
                  trace := [MUTEX_SPINLOCK (Some 9), THREAD_SET_BLOCKED 40,
                            MUTEX_UNLOCK (Some 9), MUTEX_UNLOCK ABT_MUTEX_NULL]\<rparr>)"
    by (simp add: wait_defs caller_kind_def Let_def log_def world2_def world1_def world0_def)
  ultimately show ?thesis
    by (simp add: ex1)
qed

text \<open>
  C8. Start without any condition variable and let calls of the four operations take effect
  one after the other. Then for every condition variable, following \<open>next\<close> from
  \<open>waiters_head\<close> leads through allocated nodes \<open>as\<close> to \<^verbatim>\<open>NULL\<close>, \<open>waiters_tail\<close> being the
  last of them, and the nodes hold \<open>num_waiters\<close> waiters. A call of \<^verbatim>\<open>ABT_cond_wait\<close> by a
  ULT or an external thread, with a mutex that the condition variable accepts and with memory
  for a node where one is needed, queues its caller: the queue is longer by this one waiter,
  at its end, and \<open>num_waiters\<close> is greater by one. A call of \<^verbatim>\<open>ABT_cond_signal\<close> when there
  are waiters returns \<^verbatim>\<open>ABT_SUCCESS\<close> and leaves the queue without its first waiter and
  \<open>num_waiters\<close> smaller by one.
\<close>

theorem queue_length_is_num_waiters:
  assumes "conds w0 = fmempty" and "run cls w0 = Some w" and "fmlookup (conds w) p = Some c"
  shows "\<exists>as. path (entries w) (waiters_head c) as \<and> waiters_tail c = Some (last as) \<and>
           length (queue (entries w) as) = num_waiters c \<and>
           (\<forall>lp px m_entry mutex0 t ty.
              caller_kind lp px = Some (t, ty) \<and>
              (waiter_mutex c = ABT_MUTEX_NULL \<or> waiter_mutex c = mutex0) \<and>
              (num_waiters c \<noteq> 0 \<longrightarrow> (\<exists>a. m_entry = Some a \<and> fmlookup (entries w) a = None)) \<longrightarrow>
                (\<exists>w' as' c'. ABT_cond_wait lp px m_entry (Some p) mutex0 w = Suspend w' \<and>
                   fmlookup (conds w') p = Some c' \<and>
                   path (entries w') (waiters_head c') as' \<and>
                   waiters_tail c' = Some (last as') \<and>
                   queue (entries w') as' = queue (entries w) as @ [(Some ty, t)] \<and>
                   num_waiters c' = num_waiters c + 1)) \<and>
           (num_waiters c \<noteq> 0 \<longrightarrow>
                (\<exists>w' as' c' x. ABT_cond_signal (Some p) w = Return ABT_SUCCESS w' \<and>
                   fmlookup (conds w') p = Some c' \<and>
                   path (entries w') (waiters_head c') as' \<and>
                   waiters_tail c' = Some (last as') \<and>
                   queue (entries w) as = x # queue (entries w') as' \<and>
                   num_waiters c' + 1 = num_waiters c))"
proof -
  from run_cv_inv [OF assms] obtain as where inv: "cv_inv w p as" ..
  note d = cv_invD [OF inv assms(3)]
  have wait: "\<exists>w' as' c'. ABT_cond_wait lp px m_entry (Some p) mutex0 w = Suspend w' \<and>
                   fmlookup (conds w') p = Some c' \<and>
                   path (entries w') (waiters_head c') as' \<and>
                   waiters_tail c' = Some (last as') \<and>
                   queue (entries w') as' = queue (entries w) as @ [(Some ty, t)] \<and>
                   num_waiters c' = num_waiters c + 1"
    if k: "caller_kind lp px = Some (t, ty)"
      and m: "waiter_mutex c = ABT_MUTEX_NULL \<or> waiter_mutex c = mutex0"
      and a: "num_waiters c \<noteq> 0 \<longrightarrow> (\<exists>a. m_entry = Some a \<and> fmlookup (entries w) a = None)"
    for lp px m_entry mutex0 t ty
  proof -
    from wait_enqueues [OF inv assms(3) k m a] obtain w' as' c' where
      e: "ABT_cond_wait lp px m_entry (Some p) mutex0 w = Suspend w'"
      "cv_inv w' p as'" "fmlookup (conds w') p = Some c'"
      "queue (entries w') as' = queue (entries w) as @ [(Some ty, t)]"
      "num_waiters c' = num_waiters c + 1"
      by blast
    from cv_invD(1,4) [OF e(2,3)] e(1,3,4,5) show ?thesis by blast
  qed
  have signal: "\<exists>w' as' c' x. ABT_cond_signal (Some p) w = Return ABT_SUCCESS w' \<and>
                   fmlookup (conds w') p = Some c' \<and>
                   path (entries w') (waiters_head c') as' \<and>
                   waiters_tail c' = Some (last as') \<and>
                   queue (entries w) as = x # queue (entries w') as' \<and>
                   num_waiters c' + 1 = num_waiters c"
    if n: "num_waiters c \<noteq> 0"
  proof -
    from signal_dequeues [OF inv assms(3) n] obtain w' as' c' x where
      e: "ABT_cond_signal (Some p) w = Return ABT_SUCCESS w'"
      "cv_inv w' p as'" "fmlookup (conds w') p = Some c'"
      "queue (entries w) as = x # queue (entries w') as'"
      "num_waiters c' = num_waiters c - 1"
      by blast
    from e(5) n have "num_waiters c' + 1 = num_waiters c" by simp
    with cv_invD(1,4) [OF e(2,3)] e(1,3,4) show ?thesis by blast
  qed
  from d(1,4,5) wait signal show ?thesis
    by (intro exI [of _ as]) blast
qed

text \<open>
  The run that leads to \<open>world2\<close>, with ULT 40 waiting: a wait of the external thread with its
  flag at 6 makes two waiters of one, a signal none.
\<close>

theorem queue_length_is_num_waiters_witness:
  "\<exists>as. path (entries world2) (Some 10) as \<and>
     queue (entries world2) as = [(Some ABT_UNIT_TYPE_THREAD, 40)] \<and>
     (\<exists>w' as' c'. ABT_cond_wait None 6 (Some 11) (Some 100) (Some 7) world2 = Suspend w' \<and>
        fmlookup (conds w') 100 = Some c' \<and> path (entries w') (waiters_head c') as' \<and>
        queue (entries w') as' =
          [(Some ABT_UNIT_TYPE_THREAD, 40), (Some ABT_UNIT_TYPE_EXT, 6)] \<and>
        num_waiters c' = 2) \<and>
     (\<exists>w' as' c'. ABT_cond_signal (Some 100) world2 = Return ABT_SUCCESS w' \<and>
        fmlookup (conds w') 100 = Some c' \<and> path (entries w') (waiters_head c') as' \<and>
        queue (entries w') as' = [] \<and> num_waiters c' = 0)"
proof -
  let ?c = "\<lparr>mutex = Some 9, waiter_mutex = Some 7, num_waiters = 1,
            waiters_head = Some 10, waiters_tail = Some 10\<rparr>"
  have c: "fmlookup (conds world2) 100 = Some ?c"
    and e: "conds world0 = fmempty"
    and f: "fmlookup (entries world2) 11 = None"
    and e10: "fmlookup (entries world2) 10 =
      Some \<lparr>current = Some 40, next = None, type = Some ABT_UNIT_TYPE_THREAD\<rparr>"
    by (simp_all add: world2_def world1_def world0_def)
  have k: "caller_kind None 6 = Some (6, ABT_UNIT_TYPE_EXT)"
    by (simp add: caller_kind_def)
  from queue_length_is_num_waiters [OF e ex_run2 c] obtain as where
    as: "path (entries world2) (waiters_head ?c) as"
      "length (queue (entries world2) as) = num_waiters ?c"
    and wait: "\<forall>lp px m_entry mutex0 t ty.
              caller_kind lp px = Some (t, ty) \<and>
              (waiter_mutex ?c = ABT_MUTEX_NULL \<or> waiter_mutex ?c = mutex0) \<and>
              (num_waiters ?c \<noteq> 0 \<longrightarrow>
                 (\<exists>a. m_entry = Some a \<and> fmlookup (entries world2) a = None)) \<longrightarrow>
                (\<exists>w' as' c'. ABT_cond_wait lp px m_entry (Some 100) mutex0 world2 = Suspend w' \<and>
                   fmlookup (conds w') 100 = Some c' \<and>
                   path (entries w') (waiters_head c') as' \<and>
                   waiters_tail c' = Some (last as') \<and>
                   queue (entries w') as' = queue (entries world2) as @ [(Some ty, t)] \<and>
                   num_waiters c' = num_waiters ?c + 1)"
    and signal: "num_waiters ?c \<noteq> 0 \<longrightarrow>
                (\<exists>w' as' c' x. ABT_cond_signal (Some 100) world2 = Return ABT_SUCCESS w' \<and>
                   fmlookup (conds w') 100 = Some c' \<and>
                   path (entries w') (waiters_head c') as' \<and>
                   waiters_tail c' = Some (last as') \<and>
                   queue (entries world2) as = x # queue (entries w') as' \<and>
                   num_waiters c' + 1 = num_waiters ?c)"
    by (elim exE conjE) (rule that; assumption)
  from as(1) e10 have "as = [10]"
    by (cases as; cases "tl as") (auto split: option.splits)
  with e10 have q: "queue (entries world2) as = [(Some ABT_UNIT_TYPE_THREAD, 40)]"
    by simp
  from wait [rule_format, of None 6 6 ABT_UNIT_TYPE_EXT "Some 7" "Some 11"] k f
  have 1: "\<exists>w' as' c'. ABT_cond_wait None 6 (Some 11) (Some 100) (Some 7) world2 = Suspend w' \<and>
        fmlookup (conds w') 100 = Some c' \<and> path (entries w') (waiters_head c') as' \<and>
        queue (entries w') as' =
          [(Some ABT_UNIT_TYPE_THREAD, 40), (Some ABT_UNIT_TYPE_EXT, 6)] \<and>
        num_waiters c' = 2"
    unfolding q by (simp add: numeral_2_eq_2) blast
  from signal
  have 2: "\<exists>w' as' c'. ABT_cond_signal (Some 100) world2 = Return ABT_SUCCESS w' \<and>
        fmlookup (conds w') 100 = Some c' \<and> path (entries w') (waiters_head c') as' \<and>
        queue (entries w') as' = [] \<and> num_waiters c' = 0"
    unfolding q by simp metis
  from as(1) q 1 2 show ?thesis
    by (intro exI [of _ as]) simp
qed

section \<open>Pool accounting\<close>

lemma uint_total_size:
  "uint (ABTI_pool_get_total_size p) =
     (uint (ABTI_pool_get_size p) + sint (num_blocked p) + sint (num_migrations p)) mod 2 ^ 64"
proof -
  have "ABTI_pool_get_total_size p =
          word_of_int (uint (ABTI_pool_get_size p) + sint (num_blocked p) + sint (num_migrations p))"
    unfolding ABTI_pool_get_total_size_def Let_def
    by (simp only: scast_eq [of "num_blocked p"] scast_eq [of "num_migrations p"]
          of_int_add word_of_int_uint)
  then show ?thesis
    by (simp only: uint_word_of_int) simp
qed

text \<open>
  C7, as the code has it. \<^verbatim>\<open>ABTI_pool_get_total_size\<close> returns
  \<open>get_size + num_blocked + num_migrations\<close> computed in \<^verbatim>\<open>size_t\<close>, the two signed
  32-bit counters being sign-extended. Whenever the two counters together are not negative
  and the sum fits into 64 bits, the result is the exact sum and is at least
  \<^verbatim>\<open>ABTI_pool_get_size\<close>.
\<close>

theorem ABTI_pool_get_total_size_sum:
  "ABTI_pool_get_total_size p =
     ABTI_pool_get_size p + scast (num_blocked p) + scast (num_migrations p) \<and>
   (0 \<le> sint (num_blocked p) + sint (num_migrations p) \<and>
    uint (ABTI_pool_get_size p) + sint (num_blocked p) + sint (num_migrations p) < 2 ^ 64 \<longrightarrow>
      uint (ABTI_pool_get_total_size p) =
        uint (ABTI_pool_get_size p) + sint (num_blocked p) + sint (num_migrations p) \<and>
      ABTI_pool_get_size p \<le> ABTI_pool_get_total_size p)"
proof (intro conjI impI)
  show "ABTI_pool_get_total_size p =
     ABTI_pool_get_size p + scast (num_blocked p) + scast (num_migrations p)"
    by (simp add: ABTI_pool_get_total_size_def)
next
  assume h: "0 \<le> sint (num_blocked p) + sint (num_migrations p) \<and>
    uint (ABTI_pool_get_size p) + sint (num_blocked p) + sint (num_migrations p) < 2 ^ 64"
  have "0 \<le> uint (ABTI_pool_get_size p)" by simp
  with h have "0 \<le> uint (ABTI_pool_get_size p) + sint (num_blocked p) + sint (num_migrations p)"
    by linarith
  with h show eq: "uint (ABTI_pool_get_total_size p) =
        uint (ABTI_pool_get_size p) + sint (num_blocked p) + sint (num_migrations p)"
    by (simp only: uint_total_size mod_pos_pos_trivial)
  with h show "ABTI_pool_get_size p \<le> ABTI_pool_get_total_size p"
    by (simp add: word_le_def)
qed

text \<open>A pool of five units with two blocked ULTs and one migration under way: total size 8.\<close>

theorem ABTI_pool_get_total_size_sum_witness:
  "uint (ABTI_pool_get_total_size
     \<lparr>num_blocked = 2, num_migrations = 1, num_scheds = 0, data = (),
      p_get_size = (\<lambda>_. 5)\<rparr>) = 8 \<and>
   ABTI_pool_get_size
     \<lparr>num_blocked = 2, num_migrations = 1, num_scheds = 0, data = (),
      p_get_size = (\<lambda>_. 5)\<rparr>
   \<le> ABTI_pool_get_total_size
     \<lparr>num_blocked = 2, num_migrations = 1, num_scheds = 0, data = (),
      p_get_size = (\<lambda>_. 5)\<rparr>"
  using ABTI_pool_get_total_size_sum
    [of "\<lparr>num_blocked = 2, num_migrations = 1, num_scheds = 0, data = (),
          p_get_size = (\<lambda>_. 5)\<rparr>"]
  by (simp add: ABTI_pool_get_size_def)

text \<open>
  C7 as stated fails. On a pool that holds one unit, \<^verbatim>\<open>ABTI_pool_dec_num_blocked\<close> with no
  blocked ULT on record takes \<open>num_blocked\<close> to \<open>-1\<close>, and the total size, 0, is below the
  size, 1.
\<close>

theorem ABTI_pool_get_total_size_underflow:
  "ABTI_pool_get_size (ABTI_pool_dec_num_blocked
      \<lparr>num_blocked = 0, num_migrations = 0, num_scheds = 0, data = (),
       p_get_size = (\<lambda>_. 1)\<rparr>) = 1 \<and>
   ABTI_pool_get_total_size (ABTI_pool_dec_num_blocked
      \<lparr>num_blocked = 0, num_migrations = 0, num_scheds = 0, data = (),
       p_get_size = (\<lambda>_. 1)\<rparr>) = 0"
  by (simp add: ABTI_pool_get_total_size_def ABTI_pool_get_size_def ABTI_pool_dec_num_blocked_def)

end
